theory Spec2Isabelle
  imports Complex_Main "HOL-Library.Sublist"
begin

section \<open>Data model\<close>

text \<open>
  The repository holds two variants of one script: the version-scoped one
  (fetching \<open>registry/name/version\<close>) and the full-document one in
  \<open>src/index.mts\<close> (fetching \<open>registry/name\<close>). Their interfaces are
  the records below. A field typed \<open>string | null\<close> or declared optional
  (\<open>field?:\<close>) is an \<open>option\<close>; strings are taken to be ASCII.
\<close>

type_synonym url = string

record ecosystems_package =
  pkg_name :: string
  repository_url :: "string option"
  latest_release_number :: "string option"
  latest_release_published_at :: "string option"

record attestations =
  attestation_url :: string

record dist =
  attestations :: "attestations option"

record trusted_publisher =
  publisher_id :: string

record npm_user =
  trustedPublisher :: "trusted_publisher option"

record npm_version_metadata =
  dist :: "dist option"
  npmUser :: "npm_user option"

record dist_tags =
  latest :: "string option"

record repository =
  repo_type :: string
  repo_url :: string

record npm_package_metadata =
  dist_tags :: "dist_tags option"
  time :: "(string \<rightharpoonup> string) option"
  repository :: "repository option"
  versions :: "string \<rightharpoonup> npm_version_metadata"

text \<open>
  \<open>lastUploaded\<close> is declared a string, but the full-document variant reads it
  with a computed key, and a plain object answers some keys with a member it
  inherits from \<open>Object.prototype\<close>. \<open>PrototypeMember k\<close> is the inherited
  member named \<open>k\<close>: a function, or for \<open>__proto__\<close> the prototype object;
  it is truthy and it is not a string.
\<close>

datatype js_value = Str string | PrototypeMember string

record attestation_result =
  name :: string
  version :: string
  lastUploaded :: js_value
  attestationsUrl :: string
  trustedPublisherId :: string
  repositoryUrl :: string

subsection \<open>HTTP, console and timers\<close>

text \<open>
  A \<open>Response\<close> carries its status and its body; \<open>body = None\<close> is a body
  on which \<open>response.json()\<close> throws. The type assertion
  \<open>(await response.json()) as T\<close> is taken at its word: a body that parses
  has the asserted type \<open>'b\<close>. \<open>response.ok\<close> is the status range 200..299.
\<close>

record 'b response =
  status :: nat
  body :: "'b option"

definition ok :: "'b response \<Rightarrow> bool" where
  "ok r = (200 \<le> status r \<and> status r \<le> 299)"

datatype 'b outcome = NetworkFailure | Reply "'b response"

datatype error = HttpError nat | NetworkError | JsonError | Unreachable

datatype console =
    RetryWarning nat nat nat nat
  | FetchingTop nat nat
  | FetchingPage nat nat
  | Retrieved nat nat
  | TotalSoFar nat
  | ReachedEnd nat
  | Waiting500
  | ErrorFetchingPackages error
  | Skipping string
  | Checking string
  | ErrorChecking string error
  | CheckingCount nat
  | FailedToGenerate error

text \<open>
  Numbers of the report: \<open>Fin q\<close> is the finite double of value \<open>q\<close>.
\<close>

datatype jsnum = NaN | PosInfinity | Fin rat

record summary =
  total_packages :: nat
  packages_with_attestations :: nat
  attestation_percentage :: jsnum

record report_entry =
  rank :: nat
  package :: string
  entry_version :: string
  entry_lastUploaded :: js_value
  entry_attestationsUrl :: string
  entry_trustedPublisherId :: string
  entry_repositoryUrl :: string
  entry_isSupportedPlatform :: bool

record report =
  generated_at :: string
  report_summary :: summary
  packages :: "report_entry list"

text \<open>
  Everything the script does to the outside is an event, and the state of a run
  is the list of events so far, oldest first. The upstream answers a request
  from its URL and from the number of requests the run has already sent to that
  URL, so that a source may answer 503, 503, 200.
\<close>

datatype event =
    Fetch url
  | Sleep nat
  | Log console
  | WriteFile string report
  | Exit nat

type_synonym world = "event list"

type_synonym 'b upstream = "url \<Rightarrow> nat \<Rightarrow> 'b outcome"

definition served :: "world \<Rightarrow> url \<Rightarrow> nat" where
  "served s u = count_list s (Fetch u)"

definition fetch :: "'b upstream \<Rightarrow> url \<Rightarrow> world \<Rightarrow> (error + 'b response) \<times> world" where
  "fetch up u s =
     (case up u (served s u) of
        NetworkFailure \<Rightarrow> (Inl NetworkError, s @ [Fetch u])
      | Reply r \<Rightarrow> (Inr r, s @ [Fetch u]))"

definition sleep :: "nat \<Rightarrow> world \<Rightarrow> world" where
  "sleep ms s = s @ [Sleep ms]"

definition console_log :: "console \<Rightarrow> world \<Rightarrow> world" where
  "console_log l s = s @ [Log l]"

definition json :: "'b response \<Rightarrow> error + 'b" where
  "json r = (case body r of None \<Rightarrow> Inl JsonError | Some b \<Rightarrow> Inr b)"

section \<open>fetchWithRetry\<close>

text \<open>
  The \<open>for (attempt = 1; attempt <= retries; attempt++)\<close> loop, as a
  recursion on \<open>attempt\<close>. \<open>retries\<close> and \<open>baseDelay\<close> are natural
  numbers: every caller leaves them at their defaults 3 and 1000.
\<close>

function fetchWithRetry_loop ::
  "'b upstream \<Rightarrow> url \<Rightarrow> nat \<Rightarrow> nat \<Rightarrow> nat \<Rightarrow> world \<Rightarrow> (error + 'b response) \<times> world"
where
  "fetchWithRetry_loop up u retries baseDelay attempt s =
     (if attempt \<le> retries then
        (case fetch up u s of
           (Inl e, s1) \<Rightarrow> (Inl e, s1)
         | (Inr response, s1) \<Rightarrow>
             if ok response then (Inr response, s1)
             else if 500 \<le> status response \<and> attempt < retries then
               let delay = baseDelay * 2 ^ (attempt - 1);
                   s2 = console_log (RetryWarning (status response) attempt retries delay) s1;
                   s3 = sleep delay s2
               in fetchWithRetry_loop up u retries baseDelay (attempt + 1) s3
             else (Inl (HttpError (status response)), s1))
      else (Inl Unreachable, s))"
  by pat_completeness auto
termination
  by (relation "measure (\<lambda>(up, u, retries, baseDelay, attempt, s). retries + 1 - attempt)") auto

declare fetchWithRetry_loop.simps [simp del]

definition fetchWithRetry ::
  "'b upstream \<Rightarrow> url \<Rightarrow> nat \<Rightarrow> nat \<Rightarrow> world \<Rightarrow> (error + 'b response) \<times> world"
where
  "fetchWithRetry up u retries baseDelay s = fetchWithRetry_loop up u retries baseDelay 1 s"

definition fetchWithRetry_default ::
  "'b upstream \<Rightarrow> url \<Rightarrow> world \<Rightarrow> (error + 'b response) \<times> world"
where
  "fetchWithRetry_default up u s = fetchWithRetry up u 3 1000 s"

section \<open>fetchTopNpmPackages\<close>

text \<open>
  Template literals print numbers in decimal.
\<close>

definition digit :: "nat \<Rightarrow> char" where
  "digit d = char_of (48 + d)"

function show_nat :: "nat \<Rightarrow> string" where
  "show_nat n = (if n < 10 then [digit n] else show_nat (n div 10) @ [digit (n mod 10)])"
  by pat_completeness auto
termination
  by (relation "measure id") auto

declare show_nat.simps [simp del]

definition page_url :: "nat \<Rightarrow> nat \<Rightarrow> url" where
  "page_url perPage page =
     ''https://packages.ecosyste.ms/api/v1/registries/npmjs.org/packages?per_page=''
       @ show_nat perPage @ ''&page='' @ show_nat page @ ''&order=desc&sort=downloads''"

text \<open>
  The page loop \<open>for (page = 1; page <= totalPages; page++)\<close>. The two variants
  differ in what they keep of a page: the version-scoped one keeps the package
  objects (\<open>proj\<close> is the identity), the full-document one their names.
\<close>

function fetchPages_loop ::
  "'a list upstream \<Rightarrow> ('a \<Rightarrow> 'p) \<Rightarrow> nat \<Rightarrow> nat \<Rightarrow> nat \<Rightarrow> 'p list \<Rightarrow> world
     \<Rightarrow> (error + 'p list) \<times> world"
where
  "fetchPages_loop up proj perPage totalPages page allPackages s =
     (if page \<le> totalPages then
        let s1 = console_log (FetchingPage page totalPages) s in
        (case fetchWithRetry_default up (page_url perPage page) s1 of
           (Inl e, s2) \<Rightarrow> (Inl e, s2)
         | (Inr response, s2) \<Rightarrow>
             (case json response of
                Inl e \<Rightarrow> (Inl e, s2)
              | Inr data \<Rightarrow>
                  let s3 = console_log (Retrieved (length data) page) s2;
                      allPackages' = allPackages @ map proj data;
                      s4 = console_log (TotalSoFar (length allPackages')) s3
                  in if length data < perPage
                     then (Inr allPackages', console_log (ReachedEnd page) s4)
                     else
                       let s5 = (if page < totalPages
                                 then sleep 500 (console_log Waiting500 s4) else s4)
                       in fetchPages_loop up proj perPage totalPages (page + 1) allPackages' s5))
      else (Inr allPackages, s))"
  by pat_completeness auto
termination
  by (relation "measure (\<lambda>(up, proj, perPage, totalPages, page, allPackages, s).
        totalPages + 1 - page)") auto

declare fetchPages_loop.simps [simp del]

text \<open>
  \<open>limit\<close> is a natural number (the script passes 500), so
  \<open>Math.ceil(limit / perPage)\<close> is the rounded-up quotient. The \<open>catch\<close>
  logs and rethrows.
\<close>

definition fetchTopNpmPackages_with ::
  "('a \<Rightarrow> 'p) \<Rightarrow> 'a list upstream \<Rightarrow> nat \<Rightarrow> world \<Rightarrow> (error + 'p list) \<times> world"
where
  "fetchTopNpmPackages_with proj up limit s =
     (let perPage = 100;
          totalPages = (limit + perPage - 1) div perPage;
          s0 = console_log (FetchingTop limit totalPages) s
      in case fetchPages_loop up proj perPage totalPages 1 [] s0 of
           (Inl e, s1) \<Rightarrow> (Inl e, console_log (ErrorFetchingPackages e) s1)
         | (Inr allPackages, s1) \<Rightarrow> (Inr (take limit allPackages), s1))"

definition fetchTopNpmPackages ::
  "ecosystems_package list upstream \<Rightarrow> nat \<Rightarrow> world
     \<Rightarrow> (error + ecosystems_package list) \<times> world"
where
  "fetchTopNpmPackages = fetchTopNpmPackages_with (\<lambda>pkg. pkg)"

definition fetchTopNpmPackages_full ::
  "ecosystems_package list upstream \<Rightarrow> nat \<Rightarrow> world \<Rightarrow> (error + string list) \<times> world"
where
  "fetchTopNpmPackages_full = fetchTopNpmPackages_with pkg_name"

section \<open>isSupportedPlatform\<close>

definition toLowerCase_char :: "char \<Rightarrow> char" where
  "toLowerCase_char c =
     (let n = (of_char c :: nat) in if 65 \<le> n \<and> n \<le> 90 then char_of (n + 32) else c)"

definition toLowerCase :: "string \<Rightarrow> string" where
  "toLowerCase s = map toLowerCase_char s"

text \<open>\<open>replace(/^git\+/, "")\<close> and \<open>replace(/\.git$/, "")\<close>.\<close>

definition strip_git_plus :: "string \<Rightarrow> string" where
  "strip_git_plus s = (if prefix ''git+'' s then drop 4 s else s)"

definition strip_dot_git :: "string \<Rightarrow> string" where
  "strip_dot_git s = (if suffix ''.git'' s then take (length s - 4) s else s)"

definition includes_str :: "string \<Rightarrow> string \<Rightarrow> bool" where
  "includes_str s sub = sublist sub s"

definition isSupportedPlatform :: "string \<Rightarrow> bool" where
  "isSupportedPlatform repoUrl =
     (if repoUrl = [] then False
      else
        let lowerUrl = toLowerCase repoUrl;
            cleanUrl = strip_dot_git (strip_git_plus lowerUrl)
        in includes_str cleanUrl ''github.com'' \<or> includes_str cleanUrl ''gitlab.com'')"

section \<open>fetchPackageAttestation\<close>

text \<open>
  \<open>x || ""\<close> on a \<open>string | null | undefined\<close>, and \<open>!x\<close> on the same:
  null, undefined and the empty string are falsy.
\<close>

definition or_empty :: "string option \<Rightarrow> string" where
  "or_empty x = (case x of None \<Rightarrow> [] | Some v \<Rightarrow> v)"

definition falsy :: "string option \<Rightarrow> bool" where
  "falsy x = (case x of None \<Rightarrow> True | Some v \<Rightarrow> v = [])"

text \<open>
  The optional chains \<open>versionData.dist?.attestations?.url\<close> and
  \<open>versionData._npmUser?.trustedPublisher?.id\<close>.
\<close>

definition dist_attestations_url :: "npm_version_metadata \<Rightarrow> string option" where
  "dist_attestations_url versionData =
     map_option attestation_url (Option.bind (dist versionData) attestations)"

definition npmUser_trustedPublisher_id :: "npm_version_metadata \<Rightarrow> string option" where
  "npmUser_trustedPublisher_id versionData =
     map_option publisher_id (Option.bind (npmUser versionData) trustedPublisher)"

text \<open>
  The version-scoped variant. A rejected fetch, an error status and a body that
  does not parse all end in the \<open>catch\<close>, which logs and returns null.
\<close>

definition fetchPackageAttestation ::
  "npm_version_metadata upstream \<Rightarrow> ecosystems_package \<Rightarrow> world
     \<Rightarrow> attestation_result option \<times> world"
where
  "fetchPackageAttestation up pkg s =
     (let latestVersion = latest_release_number pkg in
      if falsy latestVersion then
        (Some \<lparr>name = pkg_name pkg,
               version = [],
               lastUploaded = Str (or_empty (latest_release_published_at pkg)),
               attestationsUrl = [],
               trustedPublisherId = [],
               repositoryUrl = or_empty (repository_url pkg)\<rparr>,
         console_log (Skipping (pkg_name pkg)) s)
      else
        let v = or_empty latestVersion;
            s1 = console_log (Checking (pkg_name pkg @ ''@'' @ v)) s
        in case fetchWithRetry_default up
                  (''https://registry.npmjs.org/'' @ pkg_name pkg @ ''/'' @ v) s1 of
             (Inl e, s2) \<Rightarrow> (None, console_log (ErrorChecking (pkg_name pkg) e) s2)
           | (Inr response, s2) \<Rightarrow>
               (case json response of
                  Inl e \<Rightarrow> (None, console_log (ErrorChecking (pkg_name pkg) e) s2)
                | Inr versionData \<Rightarrow>
                    (Some \<lparr>name = pkg_name pkg,
                           version = v,
                           lastUploaded = Str (or_empty (latest_release_published_at pkg)),
                           attestationsUrl = or_empty (dist_attestations_url versionData),
                           trustedPublisherId = or_empty (npmUser_trustedPublisher_id versionData),
                           repositoryUrl = or_empty (repository_url pkg)\<rparr>,
                     s2)))"

text \<open>
  \<open>obj[key]\<close> on an object parsed from JSON, with a key computed at run time.
  The lookup finds the object's own entry, or else walks the prototype chain:
  the keys below are the members of \<open>Object.prototype\<close>, which every parsed
  object inherits. \<open>!obj[key]\<close> is true only when nothing is found, and
  \<open>x || ""\<close> keeps whatever was found unless it is the empty string.
\<close>

definition object_prototype_members :: "string list" where
  "object_prototype_members =
     [''constructor'', ''__defineGetter__'', ''__defineSetter__'', ''hasOwnProperty'',
      ''__lookupGetter__'', ''__lookupSetter__'', ''isPrototypeOf'',
      ''propertyIsEnumerable'', ''toString'', ''valueOf'', ''__proto__'', ''toLocaleString'']"

datatype 'a property = Own 'a | FromPrototype string | Undefined

definition get_property :: "(string \<rightharpoonup> 'a) \<Rightarrow> string \<Rightarrow> 'a property" where
  "get_property obj key =
     (case obj key of
        Some v \<Rightarrow> Own v
      | None \<Rightarrow> if key \<in> set object_prototype_members then FromPrototype key else Undefined)"

definition not_found :: "'a property \<Rightarrow> bool" where
  "not_found x = (case x of Undefined \<Rightarrow> True | Own v \<Rightarrow> False | FromPrototype k \<Rightarrow> False)"

definition value_or_empty :: "string property \<Rightarrow> js_value" where
  "value_or_empty x =
     (case x of Own v \<Rightarrow> Str v | FromPrototype k \<Rightarrow> PrototypeMember k | Undefined \<Rightarrow> Str [])"

text \<open>
  The two optional chains on what \<open>metadata.versions[latestVersion]\<close> found. An
  inherited member has neither a \<open>dist\<close> nor a \<open>_npmUser\<close> property.
\<close>

definition found_attestations_url :: "npm_version_metadata property \<Rightarrow> string option" where
  "found_attestations_url versionData =
     (case versionData of
        Own v \<Rightarrow> dist_attestations_url v
      | FromPrototype k \<Rightarrow> None
      | Undefined \<Rightarrow> None)"

definition found_trustedPublisher_id :: "npm_version_metadata property \<Rightarrow> string option" where
  "found_trustedPublisher_id versionData =
     (case versionData of
        Own v \<Rightarrow> npmUser_trustedPublisher_id v
      | FromPrototype k \<Rightarrow> None
      | Undefined \<Rightarrow> None)"

text \<open>
  The full-document variant of \<open>src/index.mts\<close>: what it does with the parsed
  document, then the function itself.
\<close>

definition read_package_document ::
  "string \<Rightarrow> npm_package_metadata \<Rightarrow> attestation_result option"
where
  "read_package_document packageName metadata =
     (let latestVersion = Option.bind (dist_tags metadata) latest in
      if falsy latestVersion then None
      else
        let v = or_empty latestVersion;
            versionData = get_property (versions metadata) v
        in if not_found versionData then None
           else
             Some \<lparr>name = packageName,
                   version = v,
                   lastUploaded =
                     (case time metadata of
                        None \<Rightarrow> Str []
                      | Some t \<Rightarrow> value_or_empty (get_property t v)),
                   attestationsUrl = or_empty (found_attestations_url versionData),
                   trustedPublisherId = or_empty (found_trustedPublisher_id versionData),
                   repositoryUrl = or_empty (map_option repo_url (repository metadata))\<rparr>)"

definition fetchPackageAttestation_full ::
  "npm_package_metadata upstream \<Rightarrow> string \<Rightarrow> world \<Rightarrow> attestation_result option \<times> world"
where
  "fetchPackageAttestation_full up packageName s =
     (let s1 = console_log (Checking packageName) s in
      case fetchWithRetry_default up (''https://registry.npmjs.org/'' @ packageName) s1 of
        (Inl e, s2) \<Rightarrow> (None, console_log (ErrorChecking packageName e) s2)
      | (Inr response, s2) \<Rightarrow>
          (case json response of
             Inl e \<Rightarrow> (None, console_log (ErrorChecking packageName e) s2)
           | Inr metadata \<Rightarrow> (read_package_document packageName metadata, s2)))"

section \<open>A batch of lookups\<close>

text \<open>
  \<open>batch.map((pkg) => fetchPackageAttestation(pkg))\<close> calls the checker on
  each member in turn, and each call runs up to its first \<open>await\<close>: it has
  logged its line and, unless it returned at once, sent its first request.
  \<open>Promise.all\<close> then waits until every member has settled. In between, the
  members advance one continuation at a time, in an order that the network and
  the timers decide.

  For this the two checkers are read as the same procedure over four parts: the
  line logged on entry, what the synchronous part decides (a record at once, or
  a URL to request), the name used in the error line of the \<open>catch\<close>, and
  what is made of a parsed body.
\<close>

datatype start = Immediately attestation_result | Request url

record ('p, 'b) checker =
  announce :: "'p \<Rightarrow> console"
  plan :: "'p \<Rightarrow> start"
  label :: "'p \<Rightarrow> string"
  build :: "'p \<Rightarrow> 'b \<Rightarrow> attestation_result option"

definition version_scoped :: "(ecosystems_package, npm_version_metadata) checker" where
  "version_scoped =
     \<lparr>announce = (\<lambda>pkg.
        if falsy (latest_release_number pkg) then Skipping (pkg_name pkg)
        else Checking (pkg_name pkg @ ''@'' @ or_empty (latest_release_number pkg))),
      plan = (\<lambda>pkg.
        if falsy (latest_release_number pkg) then
          Immediately
            \<lparr>name = pkg_name pkg,
             version = [],
             lastUploaded = Str (or_empty (latest_release_published_at pkg)),
             attestationsUrl = [],
             trustedPublisherId = [],
             repositoryUrl = or_empty (repository_url pkg)\<rparr>
        else
          Request (''https://registry.npmjs.org/'' @ pkg_name pkg @ ''/''
                     @ or_empty (latest_release_number pkg))),
      label = pkg_name,
      build = (\<lambda>pkg versionData.
        Some \<lparr>name = pkg_name pkg,
              version = or_empty (latest_release_number pkg),
              lastUploaded = Str (or_empty (latest_release_published_at pkg)),
              attestationsUrl = or_empty (dist_attestations_url versionData),
              trustedPublisherId = or_empty (npmUser_trustedPublisher_id versionData),
              repositoryUrl = or_empty (repository_url pkg)\<rparr>)\<rparr>"

definition full_document :: "(string, npm_package_metadata) checker" where
  "full_document =
     \<lparr>announce = Checking,
      plan = (\<lambda>packageName. Request (''https://registry.npmjs.org/'' @ packageName)),
      label = (\<lambda>packageName. packageName),
      build = read_package_document\<rparr>"

text \<open>
  The checker awaited on its own, as \<open>await fetchPackageAttestation(pkg)\<close>
  would run it.
\<close>

definition parsed :: "error + 'b response \<Rightarrow> error + 'b" where
  "parsed x = (case x of Inl e \<Rightarrow> Inl e | Inr response \<Rightarrow> json response)"

definition conclude ::
  "('p, 'b) checker \<Rightarrow> 'p \<Rightarrow> error + 'b \<Rightarrow> world \<Rightarrow> attestation_result option \<times> world"
where
  "conclude chk p x s =
     (case x of
        Inl e \<Rightarrow> (None, console_log (ErrorChecking (label chk p) e) s)
      | Inr b \<Rightarrow> (build chk p b, s))"

definition awaited ::
  "('p, 'b) checker \<Rightarrow> 'b upstream \<Rightarrow> 'p \<Rightarrow> world \<Rightarrow> attestation_result option \<times> world"
where
  "awaited chk up p s =
     (let s1 = console_log (announce chk p) s in
      case plan chk p of
        Immediately r \<Rightarrow> (Some r, s1)
      | Request u \<Rightarrow>
          (case fetchWithRetry_default up u s1 of (x, s2) \<Rightarrow> conclude chk p (parsed x) s2))"

text \<open>
  A member of a batch has settled, or waits for something: the response to the
  request of its attempt, the timer before its next attempt, or the body of the
  response it accepted. The answer to a request is decided when the request is
  sent; when it arrives is not.
\<close>

datatype 'b pending =
    AwaitingResponse nat "error + 'b response"
  | AwaitingTimer nat
  | AwaitingBody "'b response"

datatype 'b task = Settled "attestation_result option" | Pending url "'b pending"

definition send_request :: "'b upstream \<Rightarrow> url \<Rightarrow> nat \<Rightarrow> world \<Rightarrow> 'b pending \<times> world" where
  "send_request up u attempt s = (case fetch up u s of (x, s1) \<Rightarrow> (AwaitingResponse attempt x, s1))"

text \<open>
  One continuation of \<open>fetchWithRetry(url)\<close> followed by \<open>response.json()\<close>,
  with the default budget of 3 attempts and base delay of 1000 ms: either the
  member waits again, or the request is over, with a parsed body or an error.
\<close>

datatype 'b progress = Still "'b pending" | Over "error + 'b"

definition resume_request ::
  "'b upstream \<Rightarrow> url \<Rightarrow> 'b pending \<Rightarrow> world \<Rightarrow> 'b progress \<times> world"
where
  "resume_request up u w s =
     (case w of
        AwaitingResponse attempt x \<Rightarrow>
          (case x of
             Inl e \<Rightarrow> (Over (Inl e), s)
           | Inr response \<Rightarrow>
               if ok response then (Still (AwaitingBody response), s)
               else if 500 \<le> status response \<and> attempt < 3 then
                 let delay = 1000 * 2 ^ (attempt - 1);
                     s2 = console_log (RetryWarning (status response) attempt 3 delay) s;
                     s3 = sleep delay s2
                 in (Still (AwaitingTimer (attempt + 1)), s3)
               else (Over (Inl (HttpError (status response))), s))
      | AwaitingTimer attempt \<Rightarrow>
          (case send_request up u attempt s of (w', s1) \<Rightarrow> (Still w', s1))
      | AwaitingBody response \<Rightarrow> (Over (json response), s))"

definition start_member ::
  "'b upstream \<Rightarrow> ('p, 'b) checker \<Rightarrow> 'p \<Rightarrow> world \<Rightarrow> ('p \<times> 'b task) \<times> world"
where
  "start_member up chk p s =
     (let s1 = console_log (announce chk p) s in
      case plan chk p of
        Immediately r \<Rightarrow> ((p, Settled (Some r)), s1)
      | Request u \<Rightarrow>
          (case send_request up u 1 s1 of (w, s2) \<Rightarrow> ((p, Pending u w), s2)))"

fun start_batch ::
  "'b upstream \<Rightarrow> ('p, 'b) checker \<Rightarrow> 'p list \<Rightarrow> world \<Rightarrow> ('p \<times> 'b task) list \<times> world"
where
  "start_batch up chk [] s = ([], s)"
| "start_batch up chk (p # ps) s =
     (case start_member up chk p s of (m, s1) \<Rightarrow>
        (case start_batch up chk ps s1 of (ms, s2) \<Rightarrow> (m # ms, s2)))"

definition step_member ::
  "'b upstream \<Rightarrow> ('p, 'b) checker \<Rightarrow> 'p \<times> 'b task \<Rightarrow> world \<Rightarrow> ('p \<times> 'b task) \<times> world"
where
  "step_member up chk m s =
     (case m of (p, t) \<Rightarrow>
        (case t of
           Settled r \<Rightarrow> ((p, Settled r), s)
         | Pending u w \<Rightarrow>
             (case resume_request up u w s of
                (Still w', s1) \<Rightarrow> ((p, Pending u w'), s1)
              | (Over x, s1) \<Rightarrow>
                  (case conclude chk p x s1 of (r, s2) \<Rightarrow> ((p, Settled r), s2)))))"

text \<open>
  The members still waiting, by position. The scheduler stands for the network
  and the timers: from the events so far and the state of the members it picks
  which waiting member advances next. Every claim about a batch is over every
  scheduler.
\<close>

definition is_pending :: "'b task \<Rightarrow> bool" where
  "is_pending t = (case t of Settled r \<Rightarrow> False | Pending u w \<Rightarrow> True)"

definition waiting :: "('p \<times> 'b task) list \<Rightarrow> nat list" where
  "waiting ms = filter (\<lambda>i. is_pending (snd (ms ! i))) [0..<length ms]"

type_synonym ('p, 'b) scheduler = "world \<Rightarrow> ('p \<times> 'b task) list \<Rightarrow> nat"

text \<open>How many continuations a member has left at most.\<close>

definition steps_left :: "'b task \<Rightarrow> nat" where
  "steps_left t =
     (case t of
        Settled r \<Rightarrow> 0
      | Pending u w \<Rightarrow>
          (case w of
             AwaitingBody response \<Rightarrow> 1
           | AwaitingResponse attempt x \<Rightarrow> 2 + 2 * (3 - attempt)
           | AwaitingTimer attempt \<Rightarrow> 3 + 2 * (3 - attempt)))"

lemma step_member_steps_left:
  "is_pending (snd m) \<Longrightarrow> steps_left (snd (fst (step_member up chk m s))) < steps_left (snd m)"
  by (cases m)
     (auto simp: step_member_def resume_request_def send_request_def conclude_def is_pending_def
        steps_left_def Let_def
        split: task.splits pending.splits sum.splits prod.splits progress.splits if_splits)

lemma waiting_nth:
  "waiting ms \<noteq> [] \<Longrightarrow>
   waiting ms ! (k mod length (waiting ms)) < length ms
   \<and> is_pending (snd (ms ! (waiting ms ! (k mod length (waiting ms)))))"
proof -
  assume "waiting ms \<noteq> []"
  then have "waiting ms ! (k mod length (waiting ms)) \<in> set (waiting ms)"
    by simp
  then show ?thesis
    by (simp add: waiting_def)
qed

lemma steps_left_update:
  "i < length ms \<Longrightarrow> steps_left (snd m') < steps_left (snd (ms ! i)) \<Longrightarrow>
   sum_list (map (\<lambda>m. steps_left (snd m)) (ms[i := m']))
     < sum_list (map (\<lambda>m. steps_left (snd m)) ms)"
proof (induction ms arbitrary: i)
  case Nil
  then show ?case by simp
next
  case (Cons m ms)
  then show ?case by (cases i) auto
qed

function settle_all ::
  "('p, 'b) scheduler \<Rightarrow> 'b upstream \<Rightarrow> ('p, 'b) checker \<Rightarrow> ('p \<times> 'b task) list \<Rightarrow> world
     \<Rightarrow> ('p \<times> 'b task) list \<times> world"
where
  "settle_all sched up chk ms s =
     (if waiting ms = [] then (ms, s)
      else
        let i = waiting ms ! (sched s ms mod length (waiting ms)) in
        (case step_member up chk (ms ! i) s of (m', s') \<Rightarrow>
           settle_all sched up chk (ms[i := m']) s'))"
  by pat_completeness auto
termination
proof (relation "measure (\<lambda>(sched, up, chk, ms, s). sum_list (map (\<lambda>m. steps_left (snd m)) ms))",
    goal_cases)
  case 1
  then show ?case by simp
next
  case (2 sched up chk ms s i m' s')
  from waiting_nth [OF 2(1), of "sched s ms"] 2(2)
  have i: "i < length ms" and p: "is_pending (snd (ms ! i))"
    by simp_all
  from step_member_steps_left [OF p, of up chk s] 2(3)
  have "steps_left (snd m') < steps_left (snd (ms ! i))"
    by (metis fst_conv)
  with i show ?case
    by (simp add: steps_left_update)
qed

declare settle_all.simps [simp del]

text \<open>What \<open>Promise.all\<close> resolves to: the members' results, in member order.\<close>

definition result_of :: "'b task \<Rightarrow> attestation_result option" where
  "result_of t = (case t of Settled r \<Rightarrow> r | Pending u w \<Rightarrow> None)"

definition run_batch ::
  "('p, 'b) scheduler \<Rightarrow> 'b upstream \<Rightarrow> ('p, 'b) checker \<Rightarrow> 'p list \<Rightarrow> world
     \<Rightarrow> attestation_result option list \<times> world"
where
  "run_batch sched up chk batch s =
     (case start_batch up chk batch s of (ms, s1) \<Rightarrow>
        (case settle_all sched up chk ms s1 of (ms', s2) \<Rightarrow>
           (map (\<lambda>m. result_of (snd m)) ms', s2)))"

section \<open>The batch loop of main\<close>

text \<open>\<open>batchResults.filter((result) => result !== null)\<close>\<close>

definition non_null :: "'a option list \<Rightarrow> 'a list" where
  "non_null rs = map the (filter (\<lambda>result. result \<noteq> None) rs)"

definition batchSize :: nat where
  "batchSize = 10"

text \<open>
  The loop \<open>for (i = 0; i < topPackages.length; i += batchSize)\<close>, over
  whatever runs a batch and returns its results.
\<close>

function batch_loop ::
  "('p list \<Rightarrow> world \<Rightarrow> attestation_result option list \<times> world) \<Rightarrow> 'p list \<Rightarrow> nat
     \<Rightarrow> attestation_result list \<Rightarrow> world \<Rightarrow> attestation_result list \<times> world"
where
  "batch_loop chk topPackages i attestationResults s =
     (if i < length topPackages then
        let batch = take batchSize (drop i topPackages) in
        (case chk batch s of (batchResults, s1) \<Rightarrow>
           let attestationResults' = attestationResults @ non_null batchResults;
               s2 = (if i + batchSize < length topPackages then sleep 1000 s1 else s1)
           in batch_loop chk topPackages (i + batchSize) attestationResults' s2)
      else (attestationResults, s))"
  by pat_completeness auto
termination
  by (relation "measure (\<lambda>(chk, topPackages, i, attestationResults, s). length topPackages - i)")
    (auto simp: batchSize_def)

declare batch_loop.simps [simp del]

section \<open>Report numbers\<close>

text \<open>
  The percentage is computed in IEEE 754 double precision. A finite double is
  modelled by its exact rational value; \<open>round_double\<close> rounds a rational to
  the nearest double, ties to even, with the 53-bit significand of the normal
  range and the fixed spacing \<open>2^-1074\<close> below it. Overflow is left out: the
  operands are list lengths and the constant 100.
\<close>

definition pow2 :: "int \<Rightarrow> rat" where
  "pow2 e = (if 0 \<le> e then 2 ^ nat e else 1 / 2 ^ nat (- e))"

function ilog2 :: "int \<Rightarrow> int" where
  "ilog2 n = (if n < 2 then 0 else 1 + ilog2 (n div 2))"
  by pat_completeness auto
termination
  by (relation "measure nat") auto

declare ilog2.simps [simp del]

text \<open>\<open>exponent x\<close> is the \<open>e\<close> with \<open>2^e \<le> x < 2^(e+1)\<close>, for \<open>x > 0\<close>.\<close>

definition exponent :: "rat \<Rightarrow> int" where
  "exponent x =
     (case quotient_of x of (p, q) \<Rightarrow>
        let g = ilog2 p - ilog2 q
        in if pow2 g \<le> x then g else g - 1)"

definition round_half_even :: "rat \<Rightarrow> int" where
  "round_half_even x =
     (let f = \<lfloor>x\<rfloor>; d = x - of_int f
      in if d < 1 / 2 then f
         else if 1 / 2 < d then f + 1
         else if even f then f else f + 1)"

definition round_double :: "rat \<Rightarrow> rat" where
  "round_double x =
     (if x = 0 then 0
      else
        let a = \<bar>x\<bar>;
            e = max (exponent a) (- 1022);
            ulp = pow2 (e - 52)
        in sgn x * of_int (round_half_even (a / ulp)) * ulp)"

text \<open>
  \<open>packagesWithAttestations / totalPackages\<close> on two array lengths (exact as
  doubles), and \<open>* 100\<close>.
\<close>

definition js_div :: "nat \<Rightarrow> nat \<Rightarrow> jsnum" where
  "js_div a b =
     (if b = 0 then (if a = 0 then NaN else PosInfinity)
      else Fin (round_double (of_nat a / of_nat b)))"

definition js_times :: "jsnum \<Rightarrow> rat \<Rightarrow> jsnum" where
  "js_times x c =
     (case x of
        NaN \<Rightarrow> NaN
      | PosInfinity \<Rightarrow> (if c = 0 then NaN else PosInfinity)
      | Fin q \<Rightarrow> Fin (round_double (q * c)))"

text \<open>
  \<open>toFixed(1)\<close> prints the integer \<open>n\<close> for which \<open>n / 10\<close> is nearest to
  the exact value of the double, the larger \<open>n\<close> on a tie, as a decimal with one
  digit after the point: \<open>Tenths n\<close> is that string. \<open>parseFloat\<close> reads it
  back as the nearest double. The values here are non-negative and below
  \<open>10^21\<close>, where \<open>toFixed\<close> would switch notation.
\<close>

datatype fixed1 = FixedNaN | FixedInfinity | Tenths int

definition toFixed1 :: "jsnum \<Rightarrow> fixed1" where
  "toFixed1 x =
     (case x of
        NaN \<Rightarrow> FixedNaN
      | PosInfinity \<Rightarrow> FixedInfinity
      | Fin q \<Rightarrow> Tenths \<lfloor>q * 10 + 1 / 2\<rfloor>)"

definition parseFloat :: "fixed1 \<Rightarrow> jsnum" where
  "parseFloat t =
     (case t of
        FixedNaN \<Rightarrow> NaN
      | FixedInfinity \<Rightarrow> PosInfinity
      | Tenths n \<Rightarrow> Fin (round_double (of_int n / 10)))"

section \<open>main\<close>

definition to_entry :: "nat \<times> attestation_result \<Rightarrow> report_entry" where
  "to_entry ir =
     (case ir of (index, result) \<Rightarrow>
        \<lparr>rank = index + 1,
         package = name result,
         entry_version = version result,
         entry_lastUploaded = lastUploaded result,
         entry_attestationsUrl = attestationsUrl result,
         entry_trustedPublisherId = trustedPublisherId result,
         entry_repositoryUrl = repositoryUrl result,
         entry_isSupportedPlatform = isSupportedPlatform (repositoryUrl result)\<rparr>)"

text \<open>
  Lines 185 to 218 of main: the entries, the statistics and the report object.
  \<open>now\<close> is what \<open>new Date().toISOString()\<close> returns.
\<close>

definition build_report :: "string \<Rightarrow> attestation_result list \<Rightarrow> report" where
  "build_report now attestationResults =
     (let pkgs = map to_entry (enumerate 0 attestationResults);
          totalPackages = length pkgs;
          packagesWithAttestations =
            length (filter (\<lambda>pkg. entry_attestationsUrl pkg \<noteq> []) pkgs);
          attestationPercentage =
            toFixed1 (js_times (js_div packagesWithAttestations totalPackages) 100)
      in \<lparr>generated_at = now,
          report_summary =
            \<lparr>total_packages = totalPackages,
             packages_with_attestations = packagesWithAttestations,
             attestation_percentage = parseFloat attestationPercentage\<rparr>,
          packages = pkgs\<rparr>)"

text \<open>
  main, over the lister of either variant and what runs a batch. \<open>cwd\<close> is
  \<open>process.cwd()\<close>, and \<open>join(cwd, "output.json")\<close> is taken on a \<open>cwd\<close>
  that needs no normalising. The report object is recorded as it is handed to
  \<open>JSON.stringify\<close>, and \<open>writeFileSync\<close> is taken to succeed; the
  console summary printed after the file is written is not modelled. A failure
  of the lister is caught, logged, and the process exits with status 1.
\<close>

definition main_with ::
  "(nat \<Rightarrow> world \<Rightarrow> (error + 'p list) \<times> world)
     \<Rightarrow> ('p list \<Rightarrow> world \<Rightarrow> attestation_result option list \<times> world)
     \<Rightarrow> string \<Rightarrow> string \<Rightarrow> world \<Rightarrow> world"
where
  "main_with lister chk now cwd s =
     (case lister 500 s of
        (Inl e, s1) \<Rightarrow> console_log (FailedToGenerate e) s1 @ [Exit 1]
      | (Inr topPackages, s1) \<Rightarrow>
          let s2 = console_log (CheckingCount (length topPackages)) s1 in
          (case batch_loop chk topPackages 0 [] s2 of (attestationResults, s3) \<Rightarrow>
             s3 @ [WriteFile (cwd @ ''/output.json'') (build_report now attestationResults)]))"

definition main ::
  "(ecosystems_package, npm_version_metadata) scheduler
     \<Rightarrow> ecosystems_package list upstream \<Rightarrow> npm_version_metadata upstream
     \<Rightarrow> string \<Rightarrow> string \<Rightarrow> world \<Rightarrow> world"
where
  "main sched ranking registry =
     main_with (fetchTopNpmPackages ranking) (run_batch sched registry version_scoped)"

definition main_full ::
  "(string, npm_package_metadata) scheduler
     \<Rightarrow> ecosystems_package list upstream \<Rightarrow> npm_package_metadata upstream
     \<Rightarrow> string \<Rightarrow> string \<Rightarrow> world \<Rightarrow> world"
where
  "main_full sched ranking registry =
     main_with (fetchTopNpmPackages_full ranking) (run_batch sched registry full_document)"

section \<open>Notions of the specification and example data\<close>

text \<open>A source answering 503, 503, 200, and one answering 404.\<close>

definition flaky :: "unit upstream" where
  "flaky u n = Reply \<lparr>status = (if n < 2 then 503 else 200), body = Some ()\<rparr>"

definition missing :: "unit upstream" where
  "missing u n = Reply \<lparr>status = 404, body = None\<rparr>"

text \<open>
  The test as the specification words it: strip the prefix and the suffix of the
  URL as given, then look for the two host names.
\<close>

definition claimed_isSupportedPlatform :: "string \<Rightarrow> bool" where
  "claimed_isSupportedPlatform repoUrl =
     (let cleanUrl = strip_dot_git (strip_git_plus repoUrl)
      in includes_str cleanUrl ''github.com'' \<or> includes_str cleanUrl ''gitlab.com'')"

text \<open>The events of one fetchWithRetry call on \<open>u\<close>.\<close>

fun retry_event :: "url \<Rightarrow> event \<Rightarrow> bool" where
  "retry_event u (Fetch v) = (v = u)"
| "retry_event u (Sleep ms) = True"
| "retry_event u (Log (RetryWarning st a r d)) = True"
| "retry_event u e = False"

text \<open>
  A package reference without a latest version, a registry that is never
  reached, and a registry whose documents carry no \<open>dist-tags\<close>.
\<close>

definition unversioned :: ecosystems_package where
  "unversioned = \<lparr>pkg_name = ''left-pad'', repository_url = Some ''https://github.com/a/left-pad'',
     latest_release_number = None, latest_release_published_at = Some ''2018-04-09T01:10:45.796Z''\<rparr>"

text \<open>The URLs requested during a run, in order.\<close>

fun fetch_urls :: "world \<Rightarrow> url list" where
  "fetch_urls [] = []"
| "fetch_urls (Fetch u # s) = u # fetch_urls s"
| "fetch_urls (e # s) = fetch_urls s"

text \<open>
  A ranking whose pages 1 to 4 hold 100 packages each and whose page 5 holds 42.
\<close>

definition five_pages :: "ecosystems_package list upstream" where
  "five_pages u n =
     Reply \<lparr>status = 200,
            body = Some (if u = page_url 100 5 then replicate 42 unversioned
                         else replicate 100 unversioned)\<rparr>"

text \<open>
  A package reference without a latest version and one with a version, a version
  document with an attestation and no trusted publisher, and the same data as a
  full package document.
\<close>

definition versioned :: ecosystems_package where
  "versioned = \<lparr>pkg_name = ''left-pad'', repository_url = None,
     latest_release_number = Some ''1.3.0'', latest_release_published_at = None\<rparr>"

definition attested_version :: npm_version_metadata where
  "attested_version =
     \<lparr>dist = Some \<lparr>attestations =
               Some \<lparr>attestation_url = ''https://registry.npmjs.org/-/npm/v1/attestations/left-pad@1.3.0''\<rparr>\<rparr>,
      npmUser = None\<rparr>"

definition attested_document :: npm_package_metadata where
  "attested_document =
     \<lparr>dist_tags = Some \<lparr>latest = Some ''1.3.0''\<rparr>, time = None, repository = None,
      versions = [''1.3.0'' \<mapsto> attested_version]\<rparr>"

text \<open>
  A registry whose documents name \<open>constructor\<close> as their latest version and
  have no versions at all, without and with a \<open>time\<close> object.
\<close>

definition constructor_document :: npm_package_metadata where
  "constructor_document =
     \<lparr>dist_tags = Some \<lparr>latest = Some ''constructor''\<rparr>, time = None, repository = None,
      versions = Map.empty\<rparr>"

definition constructor_registry :: "npm_package_metadata upstream" where
  "constructor_registry u n = Reply \<lparr>status = 200, body = Some constructor_document\<rparr>"

definition timed_constructor_document :: npm_package_metadata where
  "timed_constructor_document =
     \<lparr>dist_tags = Some \<lparr>latest = Some ''constructor''\<rparr>, time = Some Map.empty,
      repository = None, versions = Map.empty\<rparr>"

definition timed_constructor_registry :: "npm_package_metadata upstream" where
  "timed_constructor_registry u n =
     Reply \<lparr>status = 200, body = Some timed_constructor_document\<rparr>"

text \<open>
  Rounding to one decimal place, halves upwards, as the specification words it.
\<close>

definition round_to_one_decimal :: "rat \<Rightarrow> rat" where
  "round_to_one_decimal x = of_int \<lfloor>x * 10 + 1 / 2\<rfloor> / 10"

text \<open>
  Seven records, three of them with an attestation, and eighty records, 23 of
  them with an attestation.
\<close>

definition with_attestation :: attestation_result where
  "with_attestation =
     \<lparr>name = ''left-pad'', version = ''1.3.0'', lastUploaded = Str [],
      attestationsUrl = ''https://registry.npmjs.org/-/npm/v1/attestations/left-pad@1.3.0'',
      trustedPublisherId = [], repositoryUrl = []\<rparr>"

definition without_attestation :: attestation_result where
  "without_attestation =
     \<lparr>name = ''right-pad'', version = ''1.0.0'', lastUploaded = Str [],
      attestationsUrl = [], trustedPublisherId = [], repositoryUrl = []\<rparr>"

definition three_of_seven :: "attestation_result list" where
  "three_of_seven =
     [with_attestation, without_attestation, without_attestation, with_attestation,
      without_attestation, with_attestation, without_attestation]"

definition twenty_three_of_eighty :: "attestation_result list" where
  "twenty_three_of_eighty = replicate 23 with_attestation @ replicate 57 without_attestation"

text \<open>
  The schedule as the specification describes it: the list cut into consecutive
  batches of \<open>batchSize\<close>, the batches run one after the other, each started
  when the one before has returned, after a pause of 1000 ms.
\<close>

function batches :: "'p list \<Rightarrow> 'p list list" where
  "batches xs = (if xs = [] then [] else take batchSize xs # batches (drop batchSize xs))"
  by pat_completeness auto
termination
  by (relation "measure length") (auto simp: batchSize_def)

declare batches.simps [simp del]

text \<open>
  \<open>schedule run bs s\<close> pairs each batch with the events of the run at the
  moment the batch is started, \<open>run\<close> being what runs one batch.
\<close>

fun schedule ::
  "('p list \<Rightarrow> world \<Rightarrow> attestation_result option list \<times> world) \<Rightarrow> 'p list list \<Rightarrow> world
     \<Rightarrow> ('p list \<times> world) list"
where
  "schedule run [] s = []"
| "schedule run (b # bs) s =
     (b, s) # schedule run bs (if bs = [] then snd (run b s) else sleep 1000 (snd (run b s)))"

text \<open>
  What a batch started at \<open>s\<close> resolves to, one outcome for each member, and
  the events it adds.
\<close>

definition outcomes_of ::
  "('p list \<Rightarrow> world \<Rightarrow> attestation_result option list \<times> world) \<Rightarrow> 'p list \<times> world
     \<Rightarrow> attestation_result option list"
where
  "outcomes_of run bs = fst (run (fst bs) (snd bs))"

definition events_of ::
  "('p list \<Rightarrow> world \<Rightarrow> attestation_result option list \<times> world) \<Rightarrow> 'p list \<times> world
     \<Rightarrow> event list"
where
  "events_of run bs = drop (length (snd bs)) (snd (run (fst bs) (snd bs)))"

text \<open>The events of the batches, one batch after the other, with the pauses.\<close>

fun between_batches :: "event list list \<Rightarrow> event list" where
  "between_batches [] = []"
| "between_batches [d] = d"
| "between_batches (d # ds) = d @ Sleep 1000 # between_batches ds"

text \<open>
  What \<open>batch.map((pkg) => fetchPackageAttestation(pkg))\<close> does before any
  response is handled: each member in turn logs its line and, unless it returns
  at once, sends its first request.
\<close>

definition first_request :: "('p, 'b) checker \<Rightarrow> 'p \<Rightarrow> url list" where
  "first_request chk p = (case plan chk p of Immediately r \<Rightarrow> [] | Request u \<Rightarrow> [u])"

definition start_events :: "('p, 'b) checker \<Rightarrow> 'p list \<Rightarrow> event list" where
  "start_events chk b = concat (map (\<lambda>p. Log (announce chk p) # map Fetch (first_request chk p)) b)"

definition planned_urls :: "('p, 'b) checker \<Rightarrow> 'p list \<Rightarrow> url list" where
  "planned_urls chk b = concat (map (first_request chk) b)"

text \<open>The members of a batch as they are when \<open>Promise.all\<close> resolves.\<close>

definition members_at_return ::
  "('p, 'b) scheduler \<Rightarrow> 'b upstream \<Rightarrow> ('p, 'b) checker \<Rightarrow> 'p list \<times> world
     \<Rightarrow> ('p \<times> 'b task) list"
where
  "members_at_return sched up chk bs =
     (case start_batch up chk (fst bs) (snd bs) of (ms, s1) \<Rightarrow> fst (settle_all sched up chk ms s1))"

text \<open>
  Both checkers announce each call on the console, before anything else.
\<close>

fun is_invocation :: "event \<Rightarrow> bool" where
  "is_invocation (Log (Skipping n)) = True"
| "is_invocation (Log (Checking n)) = True"
| "is_invocation e = False"

text \<open>A waiting member waits on the URL its checker planned.\<close>

definition on_plan :: "('p, 'b) checker \<Rightarrow> 'p \<times> 'b task \<Rightarrow> bool" where
  "on_plan chk m =
     (case snd m of Settled r \<Rightarrow> True | Pending u w \<Rightarrow> plan chk (fst m) = Request u)"

text \<open>
  25 different packages, of which the 7th, 14th and 21st have no known version,
  and a registry that answers 404 for \<open>pkg-3\<close>, 503 and then 200 for
  \<open>pkg-12\<close>, fails to connect for \<open>pkg-18\<close> and has a version document
  for every other package. The scheduler lets the member advance whose
  position among the waiting ones is the number of events so far.
\<close>

definition numbered :: "nat \<Rightarrow> ecosystems_package" where
  "numbered n =
     \<lparr>pkg_name = ''pkg-'' @ show_nat n, repository_url = None,
      latest_release_number = (if n mod 7 = 0 then None else Some ''1.0.0''),
      latest_release_published_at = None\<rparr>"

definition twenty_five :: "ecosystems_package list" where
  "twenty_five = map numbered [1..<26]"

definition mixed_registry :: "npm_version_metadata upstream" where
  "mixed_registry u n =
     (if u = ''https://registry.npmjs.org/pkg-3/1.0.0'' then Reply \<lparr>status = 404, body = None\<rparr>
      else if u = ''https://registry.npmjs.org/pkg-12/1.0.0'' \<and> n = 0
        then Reply \<lparr>status = 503, body = None\<rparr>
      else if u = ''https://registry.npmjs.org/pkg-18/1.0.0'' then NetworkFailure
      else Reply \<lparr>status = 200, body = Some attested_version\<rparr>)"

definition by_event_count :: "(ecosystems_package, npm_version_metadata) scheduler" where
  "by_event_count s ms = length s"

section \<open>Properties\<close>

subsection \<open>Requests and the event list\<close>

lemma served_snoc_Fetch: "served (s @ [Fetch u]) u = Suc (served s u)"
  by (simp add: served_def)

lemma served_snoc_other: "e \<noteq> Fetch u \<Longrightarrow> served (s @ [e]) u = served s u"
  by (simp add: served_def)

lemma served_append: "served (s @ t) u = served s u + served t u"
  by (induction s) (simp_all add: served_def)

lemma loop_unfold:
  "up u (served s u) = Reply r \<Longrightarrow>
   fetchWithRetry_loop up u retries baseDelay attempt s =
     (if attempt \<le> retries then
        if ok r then (Inr r, s @ [Fetch u])
        else if 500 \<le> status r \<and> attempt < retries then
          fetchWithRetry_loop up u retries baseDelay (attempt + 1)
            (s @ [Fetch u, Log (RetryWarning (status r) attempt retries (baseDelay * 2 ^ (attempt - 1))),
                  Sleep (baseDelay * 2 ^ (attempt - 1))])
        else (Inl (HttpError (status r)), s @ [Fetch u])
      else (Inl Unreachable, s))"
  by (subst fetchWithRetry_loop.simps) (simp add: fetch_def console_log_def sleep_def Let_def)

text \<open>
  C1. With a budget of 3 attempts and a base delay of 1000 ms, fetchWithRetry
  returns the first ok response; a response with status at least 500 on attempt
  1 or 2 is followed by a delay of 1000 ms, then 2000 ms, and another attempt;
  any other response that is not ok, and a status of at least 500 on the third
  attempt, raise an error carrying that status, with no further fetch. Here
  \<open>r1\<close>, \<open>r2\<close>, \<open>r3\<close> are the upstream's answers to the first, second and
  third request of the call, as far as the call gets to them.
\<close>

theorem fetchWithRetry_policy:
  assumes r1: "up u (served s u) = Reply r1"
    and r2: "\<not> ok r1 \<and> 500 \<le> status r1 \<Longrightarrow> up u (served s u + 1) = Reply r2"
    and r3: "\<not> ok r1 \<and> 500 \<le> status r1 \<and> \<not> ok r2 \<and> 500 \<le> status r2
             \<Longrightarrow> up u (served s u + 2) = Reply r3"
  shows "fetchWithRetry up u 3 1000 s =
    (if ok r1 then (Inr r1, s @ [Fetch u])
     else if status r1 < 500 then (Inl (HttpError (status r1)), s @ [Fetch u])
     else if ok r2 then
       (Inr r2, s @ [Fetch u, Log (RetryWarning (status r1) 1 3 1000), Sleep 1000, Fetch u])
     else if status r2 < 500 then
       (Inl (HttpError (status r2)),
        s @ [Fetch u, Log (RetryWarning (status r1) 1 3 1000), Sleep 1000, Fetch u])
     else if ok r3 then
       (Inr r3, s @ [Fetch u, Log (RetryWarning (status r1) 1 3 1000), Sleep 1000,
                     Fetch u, Log (RetryWarning (status r2) 2 3 2000), Sleep 2000, Fetch u])
     else
       (Inl (HttpError (status r3)),
        s @ [Fetch u, Log (RetryWarning (status r1) 1 3 1000), Sleep 1000,
             Fetch u, Log (RetryWarning (status r2) 2 3 2000), Sleep 2000, Fetch u]))"
proof -
  let ?s1 = "s @ [Fetch u, Log (RetryWarning (status r1) 1 3 1000), Sleep 1000]"
  let ?s2 = "?s1 @ [Fetch u, Log (RetryWarning (status r2) 2 3 2000), Sleep 2000]"
  have n1: "served ?s1 u = served s u + 1"
    by (simp add: served_append) (simp add: served_def)
  have n2: "served ?s2 u = served s u + 2"
    by (simp add: served_append) (simp add: served_def)
  have step1: "fetchWithRetry up u 3 1000 s =
      (if ok r1 then (Inr r1, s @ [Fetch u])
       else if 500 \<le> status r1 then fetchWithRetry_loop up u 3 1000 2 ?s1
       else (Inl (HttpError (status r1)), s @ [Fetch u]))"
    unfolding fetchWithRetry_def by (subst loop_unfold [of up u s r1, OF r1]) (simp del: One_nat_def)
  show ?thesis
  proof (cases "\<not> ok r1 \<and> 500 \<le> status r1")
    case False
    then show ?thesis using step1 by auto
  next
    case c1: True
    from r2 [OF c1] n1 have q2: "up u (served ?s1 u) = Reply r2" by simp
    have step2: "fetchWithRetry_loop up u 3 1000 2 ?s1 =
        (if ok r2 then (Inr r2, ?s1 @ [Fetch u])
         else if 500 \<le> status r2 then fetchWithRetry_loop up u 3 1000 3 ?s2
         else (Inl (HttpError (status r2)), ?s1 @ [Fetch u]))"
      by (subst loop_unfold [of up u _ r2, OF q2]) (simp del: One_nat_def)
    show ?thesis
    proof (cases "\<not> ok r2 \<and> 500 \<le> status r2")
      case False
      then show ?thesis using step1 step2 c1 by auto
    next
      case c2: True
      from r3 c1 c2 n2 have q3: "up u (served ?s2 u) = Reply r3" by simp
      have step3: "fetchWithRetry_loop up u 3 1000 3 ?s2 =
          (if ok r3 then (Inr r3, ?s2 @ [Fetch u])
           else (Inl (HttpError (status r3)), ?s2 @ [Fetch u]))"
        by (subst loop_unfold [of up u _ r3, OF q3]) (simp del: One_nat_def)
      show ?thesis using step1 step2 step3 c1 c2 by auto
    qed
  qed
qed

theorem fetchWithRetry_policy_witness:
  "fetchWithRetry flaky ''u'' 3 1000 [] =
     (Inr \<lparr>status = 200, body = Some ()\<rparr>,
      [Fetch ''u'', Log (RetryWarning 503 1 3 1000), Sleep 1000,
       Fetch ''u'', Log (RetryWarning 503 2 3 2000), Sleep 2000, Fetch ''u''])
   \<and> fetchWithRetry missing ''u'' 3 1000 [] = (Inl (HttpError 404), [Fetch ''u''])"
proof -
  have a: "fetchWithRetry flaky ''u'' 3 1000 [] =
     (Inr \<lparr>status = 200, body = Some ()\<rparr>,
      [Fetch ''u'', Log (RetryWarning 503 1 3 1000), Sleep 1000,
       Fetch ''u'', Log (RetryWarning 503 2 3 2000), Sleep 2000, Fetch ''u''])"
    using fetchWithRetry_policy [of flaky "''u''" "[]"
        "\<lparr>status = 503, body = Some ()\<rparr>" "\<lparr>status = 503, body = Some ()\<rparr>"
        "\<lparr>status = 200, body = Some ()\<rparr>"]
    by (simp add: flaky_def served_def ok_def)
  have b: "fetchWithRetry missing ''u'' 3 1000 [] = (Inl (HttpError 404), [Fetch ''u''])"
    using fetchWithRetry_policy [of missing "''u''" "[]"
        "\<lparr>status = 404, body = None\<rparr>" "\<lparr>status = 404, body = None\<rparr>"
        "\<lparr>status = 404, body = None\<rparr>"]
    by (simp add: missing_def served_def ok_def)
  show ?thesis using a b by simp
qed

subsection \<open>isSupportedPlatform\<close>

lemma toLowerCase_Nil: "toLowerCase [] = []"
  by (simp add: toLowerCase_def)

lemma not_includes_Nil: "sub \<noteq> [] \<Longrightarrow> \<not> includes_str [] sub"
  by (simp add: includes_str_def)

text \<open>
  C7, as stated, fails: the code lower-cases the URL first, so a URL that spells
  the host in capitals is supported although, as given, it contains neither
  \<open>github.com\<close> nor \<open>gitlab.com\<close>.
\<close>

theorem isSupportedPlatform_uppercase_counterexample:
  "isSupportedPlatform ''https://GitHub.com/foo/bar''
   \<and> \<not> claimed_isSupportedPlatform ''https://GitHub.com/foo/bar''"
  by code_simp

text \<open>
  C7, amended. For every repository URL, isSupportedPlatform is true exactly
  when the lower-cased URL, after stripping a leading \<open>git+\<close> and a trailing
  \<open>.git\<close>, contains \<open>github.com\<close> or \<open>gitlab.com\<close>; it is true on
  \<open>git+https://github.com/foo/bar.git\<close>, false on the empty string and false
  on \<open>https://example.com/foo\<close>.
\<close>

theorem isSupportedPlatform_lowercased:
  "(\<forall>repoUrl. isSupportedPlatform repoUrl =
      claimed_isSupportedPlatform (toLowerCase repoUrl))
   \<and> isSupportedPlatform ''git+https://github.com/foo/bar.git''
   \<and> \<not> isSupportedPlatform ''''
   \<and> \<not> isSupportedPlatform ''https://example.com/foo''"
proof -
  have gen: "isSupportedPlatform repoUrl = claimed_isSupportedPlatform (toLowerCase repoUrl)"
    for repoUrl
  proof (cases "repoUrl = []")
    case True
    then show ?thesis
      by (simp add: isSupportedPlatform_def claimed_isSupportedPlatform_def toLowerCase_Nil
          strip_git_plus_def strip_dot_git_def not_includes_Nil)
  next
    case False
    then show ?thesis
      by (simp add: isSupportedPlatform_def claimed_isSupportedPlatform_def)
  qed
  have e1: "isSupportedPlatform ''git+https://github.com/foo/bar.git''" by code_simp
  have e2: "\<not> isSupportedPlatform ''''" by (simp add: isSupportedPlatform_def)
  have e3: "\<not> isSupportedPlatform ''https://example.com/foo''" by code_simp
  from gen e1 e2 e3 show ?thesis by blast
qed

subsection \<open>What fetchWithRetry returns\<close>

lemma fetchWithRetry_default_ok:
  "up u (served s u) = Reply r \<Longrightarrow> ok r \<Longrightarrow>
   fetchWithRetry_default up u s = (Inr r, s @ [Fetch u])"
  unfolding fetchWithRetry_default_def fetchWithRetry_def
  by (subst loop_unfold [of up u s r]) simp_all

lemma fetchWithRetry_default_client_error:
  "up u (served s u) = Reply r \<Longrightarrow> \<not> ok r \<Longrightarrow> status r < 500 \<Longrightarrow>
   fetchWithRetry_default up u s = (Inl (HttpError (status r)), s @ [Fetch u])"
  unfolding fetchWithRetry_default_def fetchWithRetry_def
  by (subst loop_unfold [of up u s r]) simp_all

text \<open>A response that fetchWithRetry returns is one the upstream gave, and it is ok.\<close>

lemma fetchWithRetry_loop_Inr:
  "fetchWithRetry_loop up u retries baseDelay attempt s = (Inr r, s') \<Longrightarrow>
   ok r \<and> (\<exists>n. up u n = Reply r)"
proof (induction up u retries baseDelay attempt s rule: fetchWithRetry_loop.induct)
  case (1 up u retries baseDelay attempt s)
  show ?case
  proof (cases "up u (served s u)")
    case NetworkFailure
    with "1.prems" show ?thesis
      by (subst (asm) fetchWithRetry_loop.simps) (simp add: fetch_def split: if_splits)
  next
    case (Reply r0)
    have f: "fetch up u s = (Inr r0, s @ [Fetch u])"
      by (simp add: fetch_def Reply)
    show ?thesis
    proof (cases "attempt \<le> retries \<and> \<not> ok r0 \<and> 500 \<le> status r0 \<and> attempt < retries")
      case True
      then have "fetchWithRetry_loop up u retries baseDelay (attempt + 1)
          (sleep (baseDelay * 2 ^ (attempt - 1))
             (console_log (RetryWarning (status r0) attempt retries (baseDelay * 2 ^ (attempt - 1)))
                (s @ [Fetch u]))) = (Inr r, s')"
        using "1.prems" by (subst (asm) fetchWithRetry_loop.simps) (simp add: f Let_def)
      with "1.IH" [OF _ f [symmetric] refl] True show ?thesis
        by (simp add: Let_def)
    next
      case False
      with "1.prems" Reply show ?thesis
        by (subst (asm) fetchWithRetry_loop.simps) (auto simp: f split: if_splits)
    qed
  qed
qed

lemma fetchWithRetry_default_Inr:
  "fetchWithRetry_default up u s = (Inr r, s') \<Longrightarrow> ok r \<and> (\<exists>n. up u n = Reply r)"
  unfolding fetchWithRetry_default_def fetchWithRetry_def by (rule fetchWithRetry_loop_Inr)

lemma fetchWithRetry_loop_events:
  "\<exists>d. snd (fetchWithRetry_loop up u retries baseDelay attempt s) = s @ d
        \<and> list_all (retry_event u) d"
proof (induction up u retries baseDelay attempt s rule: fetchWithRetry_loop.induct)
  case (1 up u retries baseDelay attempt s)
  show ?case
  proof (cases "up u (served s u)")
    case NetworkFailure
    then show ?thesis
      by (subst fetchWithRetry_loop.simps) (simp add: fetch_def)
  next
    case (Reply r0)
    have f: "fetch up u s = (Inr r0, s @ [Fetch u])"
      by (simp add: fetch_def Reply)
    show ?thesis
    proof (cases "attempt \<le> retries \<and> \<not> ok r0 \<and> 500 \<le> status r0 \<and> attempt < retries")
      case True
      let ?w = "[Fetch u, Log (RetryWarning (status r0) attempt retries (baseDelay * 2 ^ (attempt - 1))),
                 Sleep (baseDelay * 2 ^ (attempt - 1))]"
      have st: "sleep (baseDelay * 2 ^ (attempt - 1))
             (console_log (RetryWarning (status r0) attempt retries (baseDelay * 2 ^ (attempt - 1)))
                (s @ [Fetch u])) = s @ ?w"
        by (simp add: sleep_def console_log_def)
      from "1.IH" [OF _ f [symmetric] refl _ _ refl refl refl] True st
      obtain d where d: "snd (fetchWithRetry_loop up u retries baseDelay (attempt + 1) (s @ ?w))
          = (s @ ?w) @ d" and l: "list_all (retry_event u) d"
        by auto
      have "fetchWithRetry_loop up u retries baseDelay attempt s =
          fetchWithRetry_loop up u retries baseDelay (attempt + 1) (s @ ?w)"
        using True by (subst loop_unfold [of up u s r0, OF Reply]) simp
      with d have "snd (fetchWithRetry_loop up u retries baseDelay attempt s) = s @ (?w @ d)"
        by simp
      moreover have "list_all (retry_event u) (?w @ d)"
        using l by simp
      ultimately show ?thesis by blast
    next
      case False
      then show ?thesis
        by (subst loop_unfold [of up u s r0, OF Reply]) auto
    qed
  qed
qed

lemma fetchWithRetry_default_events:
  obtains x d where "fetchWithRetry_default up u s = (x, s @ d)" "list_all (retry_event u) d"
proof -
  from fetchWithRetry_loop_events [of up u 3 1000 1 s] obtain d where
    "snd (fetchWithRetry_default up u s) = s @ d" "list_all (retry_event u) d"
    by (auto simp: fetchWithRetry_default_def fetchWithRetry_def)
  then show ?thesis
    using that [of "fst (fetchWithRetry_default up u s)" d]
    by (metis prod.collapse)
qed

subsection \<open>Page requests\<close>

lemma fetch_urls_append: "fetch_urls (a @ b) = fetch_urls a @ fetch_urls b"
  by (induction a rule: fetch_urls.induct) simp_all

lemma retry_events_fetch_urls:
  "list_all (retry_event u) d \<Longrightarrow> fetch_urls d = replicate (length (fetch_urls d)) u"
proof (induction d)
  case Nil
  then show ?case by simp
next
  case (Cons e d)
  then have "retry_event u e" and "fetch_urls d = replicate (length (fetch_urls d)) u"
    by simp_all
  then show ?case
    by (cases "(u, e)" rule: retry_event.cases) simp_all
qed

lemma fetchWithRetry_default_first_fetch:
  "\<exists>d. snd (fetchWithRetry_default up u s) = s @ Fetch u # d"
proof (cases "up u (served s u)")
  case NetworkFailure
  then show ?thesis
    unfolding fetchWithRetry_default_def fetchWithRetry_def
    by (subst fetchWithRetry_loop.simps) (simp add: fetch_def)
next
  case (Reply r)
  let ?w = "[Fetch u, Log (RetryWarning (status r) 1 3 (1000 * 2 ^ (1 - 1))),
             Sleep (1000 * 2 ^ (1 - 1))]"
  from fetchWithRetry_loop_events [of up u 3 1000 "1 + 1" "s @ ?w"]
  obtain d where "snd (fetchWithRetry_loop up u 3 1000 (1 + 1) (s @ ?w)) = (s @ ?w) @ d"
    by blast
  then show ?thesis
    unfolding fetchWithRetry_default_def fetchWithRetry_def
    by (subst loop_unfold [of up u s r, OF Reply]) (simp del: One_nat_def)
qed

lemma fetchWithRetry_default_fetch_urls:
  obtains x d k where "fetchWithRetry_default up u s = (x, s @ d)"
    and "fetch_urls d = replicate (Suc k) u"
proof -
  obtain x d where f: "fetchWithRetry_default up u s = (x, s @ d)"
    and l: "list_all (retry_event u) d"
    by (rule fetchWithRetry_default_events)
  from fetchWithRetry_default_first_fetch [of up u s] f obtain d' where "d = Fetch u # d'"
    by auto
  then have "length (fetch_urls d) = Suc (length (fetch_urls d'))"
    by simp
  with retry_events_fetch_urls [OF l] have "fetch_urls d = replicate (Suc (length (fetch_urls d'))) u"
    by simp
  with f show ?thesis
    using that by blast
qed

lemma fetchPages_loop_done:
  "\<not> page \<le> T \<Longrightarrow> fetchPages_loop up proj P T page acc s = (Inr acc, s)"
  by (subst fetchPages_loop.simps) simp

lemma fetchPages_loop_step:
  assumes "page \<le> T"
    and "fetchWithRetry_default up (page_url P page) (s @ [Log (FetchingPage page T)]) = (x, s2)"
  shows "fetchPages_loop up proj P T page acc s =
    (case x of
       Inl e \<Rightarrow> (Inl e, s2)
     | Inr response \<Rightarrow>
         (case body response of
            None \<Rightarrow> (Inl JsonError, s2)
          | Some data \<Rightarrow>
              if length data < P
              then (Inr (acc @ map proj data),
                    s2 @ [Log (Retrieved (length data) page),
                          Log (TotalSoFar (length (acc @ map proj data))), Log (ReachedEnd page)])
              else fetchPages_loop up proj P T (page + 1) (acc @ map proj data)
                     (s2 @ [Log (Retrieved (length data) page),
                            Log (TotalSoFar (length (acc @ map proj data)))]
                         @ (if page < T then [Log Waiting500, Sleep 500] else []))))"
  using assms
  by (subst fetchPages_loop.simps)
     (simp add: console_log_def sleep_def json_def Let_def split: sum.splits option.splits)

lemma upt_shift: "[page..<Suc (page + n)] = page # [Suc page..<Suc (page + n)]"
  by (simp add: upt_conv_Cons)

lemma fetchPages_loop_pages:
  "fetchPages_loop up proj P T page acc s = (Inr all, s') \<Longrightarrow>
   \<exists>pages ks d.
      s' = s @ d \<and> length ks = length pages
      \<and> all = acc @ map proj (concat pages)
      \<and> fetch_urls d =
          concat (map2 (\<lambda>p k. replicate (Suc k) (page_url P p)) [page..<page + length pages] ks)
      \<and> page + length pages \<le> max page (T + 1)
      \<and> list_all2 (\<lambda>p data. \<exists>n r. up (page_url P p) n = Reply r \<and> body r = Some data)
            [page..<page + length pages] pages
      \<and> list_all (\<lambda>data. P \<le> length data) (butlast pages)
      \<and> (page + length pages \<le> T \<longrightarrow> pages \<noteq> [] \<and> length (last pages) < P)"
proof (induction "Suc T - page" arbitrary: page acc s)
  case 0
  then have "\<not> page \<le> T" by simp
  with "0.prems" have "all = acc" "s' = s"
    by (simp_all add: fetchPages_loop_done)
  then show ?case
    by (intro exI [of _ "[]"]) (use \<open>\<not> page \<le> T\<close> in simp)
next
  case (Suc m)
  then have le: "page \<le> T" by simp
  let ?u = "page_url P page"
  obtain x d1 k where f: "fetchWithRetry_default up ?u (s @ [Log (FetchingPage page T)])
      = (x, (s @ [Log (FetchingPage page T)]) @ d1)"
    and fu: "fetch_urls d1 = replicate (Suc k) ?u"
    by (rule fetchWithRetry_default_fetch_urls)
  note step = fetchPages_loop_step [OF le f, of proj acc]
  from Suc.prems step obtain response data where
    x: "x = Inr response" and b: "body response = Some data"
    by (auto split: sum.splits option.splits)
  from f x fetchWithRetry_default_Inr obtain n where up: "up ?u n = Reply response"
    by blast
  let ?d0 = "[Log (FetchingPage page T)] @ d1 @ [Log (Retrieved (length data) page),
      Log (TotalSoFar (length (acc @ map proj data)))]"
  show ?case
  proof (cases "length data < P")
    case True
    with Suc.prems step x b have
      a: "all = acc @ map proj data"
      and s: "s' = s @ (?d0 @ [Log (ReachedEnd page)])"
      by auto
    have "fetch_urls (?d0 @ [Log (ReachedEnd page)]) = replicate (Suc k) ?u"
      by (simp add: fetch_urls_append fu)
    with a s up b le True show ?thesis
      by (intro exI [of _ "[data]"] exI [of _ "[k]"] exI [of _ "?d0 @ [Log (ReachedEnd page)]"])
         (auto simp: upt_rec)
  next
    case False
    let ?w = "if page < T then [Log Waiting500, Sleep 500] else []"
    from Suc.prems step x b False have
      r: "fetchPages_loop up proj P T (page + 1) (acc @ map proj data) (s @ (?d0 @ ?w)) = (Inr all, s')"
      by simp
    have m: "m = Suc T - (page + 1)" using Suc.hyps(2) by simp
    from Suc.hyps(1) [OF m r] obtain pages ks d where
      s: "s' = (s @ (?d0 @ ?w)) @ d" and lk: "length ks = length pages"
      and a: "all = (acc @ map proj data) @ map proj (concat pages)"
      and fd: "fetch_urls d =
          concat (map2 (\<lambda>p k. replicate (Suc k) (page_url P p))
            [page + 1..<page + 1 + length pages] ks)"
      and bd: "page + 1 + length pages \<le> max (page + 1) (T + 1)"
      and la: "list_all2 (\<lambda>p data. \<exists>n r. up (page_url P p) n = Reply r \<and> body r = Some data)
            [page + 1..<page + 1 + length pages] pages"
      and full: "list_all (\<lambda>data. P \<le> length data) (butlast pages)"
      and short: "page + 1 + length pages \<le> T \<longrightarrow> pages \<noteq> [] \<and> length (last pages) < P"
      by blast
    have fw: "fetch_urls ?w = []" by simp
    have f1: "fetch_urls ((?d0 @ ?w) @ d) =
        concat (map2 (\<lambda>p k. replicate (Suc k) (page_url P p))
          [page..<page + length (data # pages)] (k # ks))"
      unfolding fetch_urls_append fw fd
      by (simp add: fetch_urls_append fu upt_shift del: upt_Suc replicate.simps)
    have f2: "list_all2 (\<lambda>p data. \<exists>n r. up (page_url P p) n = Reply r \<and> body r = Some data)
        [page..<page + length (data # pages)] (data # pages)"
      using la up b by (simp add: upt_shift del: upt_Suc) blast
    have f3: "list_all (\<lambda>data. P \<le> length data) (butlast (data # pages))"
      using full False by simp
    have f4: "page + length (data # pages) \<le> T \<longrightarrow>
        data # pages \<noteq> [] \<and> length (last (data # pages)) < P"
      using short by simp
    have f5: "page + length (data # pages) \<le> max page (T + 1)"
      using bd le by simp
    show ?thesis
      apply (intro exI [of _ "data # pages"] exI [of _ "k # ks"] exI [of _ "(?d0 @ ?w) @ d"])
      using s lk a f1 f2 f3 f4 f5 by simp
  qed
qed

text \<open>
  C3. For a target count \<open>N\<close> of at least 1, a call of fetchTopNpmPackages that
  returns has requested the pages 1, 2, ... in increasing order (\<open>Suc k\<close>
  attempts for a page, all before the next page), at most \<open>ceil(N / 100)\<close> of
  them; every page before the last one it requested held at least 100 items,
  and if it stopped before page \<open>ceil(N / 100)\<close> the last page held fewer
  than 100; what it returns is the first \<open>N\<close> items of the pages, in the
  order received.
\<close>

theorem page_requests:
  assumes "1 \<le> N"
    and "fetchTopNpmPackages_with proj up N s = (Inr pkgs, s')"
  shows "\<exists>pages ks d.
      s' = s @ d \<and> length ks = length pages
      \<and> 1 \<le> length pages \<and> length pages \<le> (N + 99) div 100
      \<and> fetch_urls d =
          concat (map2 (\<lambda>p k. replicate (Suc k) (page_url 100 p)) [1..<Suc (length pages)] ks)
      \<and> list_all2 (\<lambda>p data. \<exists>n r. up (page_url 100 p) n = Reply r \<and> body r = Some data)
            [1..<Suc (length pages)] pages
      \<and> list_all (\<lambda>data. 100 \<le> length data) (butlast pages)
      \<and> (length pages < (N + 99) div 100 \<longrightarrow> length (last pages) < 100)
      \<and> pkgs = take N (map proj (concat pages))
      \<and> length pkgs \<le> N"
proof -
  let ?T = "(N + 99) div 100"
  let ?s0 = "s @ [Log (FetchingTop N ?T)]"
  have T: "1 \<le> ?T" using assms(1) by simp
  obtain x s1 where l: "fetchPages_loop up proj 100 ?T 1 [] ?s0 = (x, s1)"
    by (cases "fetchPages_loop up proj 100 ?T 1 [] ?s0")
  have c: "N + 100 - 1 = N + 99" by simp
  have "fetchTopNpmPackages_with proj up N s =
      (case x of Inl e \<Rightarrow> (Inl e, console_log (ErrorFetchingPackages e) s1)
       | Inr allPackages \<Rightarrow> (Inr (take N allPackages), s1))"
    unfolding fetchTopNpmPackages_with_def Let_def c console_log_def [of "FetchingTop N ?T"] l
    by simp
  with assms(2) obtain all where x: "x = Inr all" and p: "pkgs = take N all" and s1: "s' = s1"
    by (auto split: sum.splits)
  from fetchPages_loop_pages [OF l [unfolded x]] obtain pages ks d where
    s: "s1 = ?s0 @ d" and lk: "length ks = length pages"
    and a: "all = [] @ map proj (concat pages)"
    and fd: "fetch_urls d =
        concat (map2 (\<lambda>p k. replicate (Suc k) (page_url 100 p)) [1..<1 + length pages] ks)"
    and bd: "1 + length pages \<le> max 1 (?T + 1)"
    and la: "list_all2 (\<lambda>p data. \<exists>n r. up (page_url 100 p) n = Reply r \<and> body r = Some data)
          [1..<1 + length pages] pages"
    and full: "list_all (\<lambda>data. 100 \<le> length data) (butlast pages)"
    and short: "1 + length pages \<le> ?T \<longrightarrow> pages \<noteq> [] \<and> length (last pages) < 100"
    by blast
  have ne: "1 \<le> length pages"
  proof (cases pages)
    case Nil
    with short T show ?thesis by simp
  next
    case (Cons a list)
    then show ?thesis by simp
  qed
  have f1: "s' = s @ ([Log (FetchingTop N ?T)] @ d)"
    using s s1 by simp
  have f2: "fetch_urls ([Log (FetchingTop N ?T)] @ d) =
      concat (map2 (\<lambda>p k. replicate (Suc k) (page_url 100 p)) [1..<Suc (length pages)] ks)"
    using fd by simp
  have f3: "length pages \<le> ?T" using bd T by simp
  have f4: "list_all2 (\<lambda>p data. \<exists>n r. up (page_url 100 p) n = Reply r \<and> body r = Some data)
          [1..<Suc (length pages)] pages"
    using la by simp
  have f5: "length pages < ?T \<longrightarrow> length (last pages) < 100"
    using short by simp
  have f6: "pkgs = take N (map proj (concat pages))"
    using p a by simp
  have f7: "length pkgs \<le> N"
    using p by simp
  show ?thesis
    apply (intro exI [of _ pages] exI [of _ ks] exI [of _ "[Log (FetchingTop N ?T)] @ d"])
    using f1 lk ne f3 f2 f4 full f5 f6 f7 by blast
qed

lemma five_pages_run:
  "fetchTopNpmPackages_with (\<lambda>pkg. pkg) five_pages 500 [] =
     (Inr (replicate 442 unversioned),
      [Log (FetchingTop 500 5),
       Log (FetchingPage 1 5), Fetch (page_url 100 1), Log (Retrieved 100 1), Log (TotalSoFar 100),
       Log Waiting500, Sleep 500,
       Log (FetchingPage 2 5), Fetch (page_url 100 2), Log (Retrieved 100 2), Log (TotalSoFar 200),
       Log Waiting500, Sleep 500,
       Log (FetchingPage 3 5), Fetch (page_url 100 3), Log (Retrieved 100 3), Log (TotalSoFar 300),
       Log Waiting500, Sleep 500,
       Log (FetchingPage 4 5), Fetch (page_url 100 4), Log (Retrieved 100 4), Log (TotalSoFar 400),
       Log Waiting500, Sleep 500,
       Log (FetchingPage 5 5), Fetch (page_url 100 5), Log (Retrieved 42 5), Log (TotalSoFar 442),
       Log (ReachedEnd 5)])"
  by code_simp

theorem page_requests_witness:
  "fst (fetchTopNpmPackages five_pages 500 []) = Inr (replicate 442 unversioned)
   \<and> length (replicate 442 unversioned) = 442
   \<and> fetch_urls (snd (fetchTopNpmPackages five_pages 500 [])) =
       [page_url 100 1, page_url 100 2, page_url 100 3, page_url 100 4, page_url 100 5]
   \<and> (\<exists>pages. 1 \<le> length pages \<and> length pages \<le> 5
         \<and> replicate 442 unversioned = take 500 (concat pages))"
proof -
  have n: "(1::nat) \<le> 500" by simp
  from page_requests [OF n five_pages_run] obtain pages where
    "1 \<le> length pages" "length pages \<le> (500 + 99) div 100"
    "replicate 442 unversioned = take 500 (map (\<lambda>pkg. pkg) (concat pages))"
    by blast
  then have "\<exists>pages. 1 \<le> length pages \<and> length pages \<le> 5
         \<and> replicate 442 unversioned = take 500 (concat pages)"
    by (intro exI [of _ pages]) simp
  then show ?thesis
    by (simp add: fetchTopNpmPackages_def five_pages_run)
qed

subsection \<open>The checkers, awaited and in a batch\<close>

text \<open>
  The two checkers, as written, are the procedure \<open>awaited\<close> over their parts.
\<close>

lemma fetchPackageAttestation_awaited:
  "fetchPackageAttestation up pkg s = awaited version_scoped up pkg s"
  by (cases "fetchWithRetry_default up
        (''https://registry.npmjs.org/'' @ pkg_name pkg @ ''/''
           @ or_empty (latest_release_number pkg))
        (console_log (Checking (pkg_name pkg @ ''@'' @ or_empty (latest_release_number pkg))) s)")
     (auto simp: fetchPackageAttestation_def awaited_def version_scoped_def conclude_def
        parsed_def Let_def split: sum.splits)

lemma fetchPackageAttestation_full_awaited:
  "fetchPackageAttestation_full up packageName s = awaited full_document up packageName s"
  by (cases "fetchWithRetry_default up (''https://registry.npmjs.org/'' @ packageName)
        (console_log (Checking packageName) s)")
     (auto simp: fetchPackageAttestation_full_def awaited_def full_document_def conclude_def
        parsed_def Let_def split: sum.splits)

text \<open>
  A batch of one member has nothing to interleave with: it runs as the checker
  awaited on its own, whatever the scheduler.
\<close>

lemma waiting_single:
  "waiting [(p, Pending u w)] = [0]" "waiting [(p, Settled r)] = []"
  by (simp_all add: waiting_def is_pending_def)

lemma settle_all_single_settled:
  "settle_all sched up chk [(p, Settled r)] s = ([(p, Settled r)], s)"
  by (subst settle_all.simps) (simp add: waiting_single)

lemma settle_all_single_step:
  "settle_all sched up chk [(p, Pending u w)] s =
     (case step_member up chk (p, Pending u w) s of (m', s') \<Rightarrow> settle_all sched up chk [m'] s')"
  by (subst settle_all.simps) (simp add: waiting_single)

lemma settle_all_single_response:
  "attempt \<le> 3 \<Longrightarrow>
   settle_all sched up chk [(p, Pending u (AwaitingResponse attempt (fst (fetch up u s0))))]
     (snd (fetch up u s0)) =
   (case fetchWithRetry_loop up u 3 1000 attempt s0 of (x, s1) \<Rightarrow>
      (case conclude chk p (parsed x) s1 of (r, s2) \<Rightarrow> ([(p, Settled r)], s2)))"
proof (induction "3 - attempt" arbitrary: attempt s0)
  case 0
  then have a: "attempt = 3" by simp
  show ?case
  proof (cases "up u (served s0 u)")
    case NetworkFailure
    then have f: "fetch up u s0 = (Inl NetworkError, s0 @ [Fetch u])"
      by (simp add: fetch_def)
    show ?thesis
      unfolding f fst_conv snd_conv
      by (subst settle_all_single_step, subst fetchWithRetry_loop.simps)
         (simp add: a f step_member_def resume_request_def parsed_def
            settle_all_single_settled split: prod.splits)
  next
    case (Reply r)
    then have f: "fetch up u s0 = (Inr r, s0 @ [Fetch u])"
      by (simp add: fetch_def)
    show ?thesis
      unfolding f fst_conv snd_conv
      by (subst settle_all_single_step, subst fetchWithRetry_loop.simps)
         (simp add: a f step_member_def resume_request_def parsed_def
            settle_all_single_settled settle_all_single_step split: prod.splits)
  qed
next
  case (Suc n)
  then have a: "attempt < 3" by simp
  show ?case
  proof (cases "up u (served s0 u)")
    case NetworkFailure
    then have f: "fetch up u s0 = (Inl NetworkError, s0 @ [Fetch u])"
      by (simp add: fetch_def)
    show ?thesis
      unfolding f fst_conv snd_conv
      using a
      by (subst settle_all_single_step, subst fetchWithRetry_loop.simps)
         (simp add: f step_member_def resume_request_def parsed_def
            settle_all_single_settled split: prod.splits)
  next
    case (Reply r)
    then have f: "fetch up u s0 = (Inr r, s0 @ [Fetch u])"
      by (simp add: fetch_def)
    show ?thesis
    proof (cases "\<not> ok r \<and> 500 \<le> status r")
      case False
      then show ?thesis
        unfolding f fst_conv snd_conv
        using a
        by (subst settle_all_single_step, subst fetchWithRetry_loop.simps)
           (auto simp: f step_member_def resume_request_def parsed_def
              settle_all_single_settled settle_all_single_step split: prod.splits)
    next
      case True
      let ?s3 = "sleep (1000 * 2 ^ (attempt - 1))
          (console_log (RetryWarning (status r) attempt 3 (1000 * 2 ^ (attempt - 1)))
             (s0 @ [Fetch u]))"
      have ih: "settle_all sched up chk
          [(p, Pending u (AwaitingResponse (attempt + 1) (fst (fetch up u ?s3))))]
          (snd (fetch up u ?s3)) =
        (case fetchWithRetry_loop up u 3 1000 (attempt + 1) ?s3 of (x, s1) \<Rightarrow>
           (case conclude chk p (parsed x) s1 of (r, s2) \<Rightarrow> ([(p, Settled r)], s2)))"
        using Suc.hyps(1) [of "attempt + 1" ?s3] Suc.hyps(2) a by simp
      have l: "settle_all sched up chk [(p, Pending u (AwaitingResponse attempt (Inr r)))]
          (s0 @ [Fetch u]) =
        settle_all sched up chk
          [(p, Pending u (AwaitingResponse (attempt + 1) (fst (fetch up u ?s3))))]
          (snd (fetch up u ?s3))"
        using True a
        by (subst settle_all_single_step)
           (simp add: step_member_def resume_request_def Let_def,
            subst settle_all_single_step,
            simp add: step_member_def resume_request_def send_request_def split: prod.splits)
      have r: "fetchWithRetry_loop up u 3 1000 attempt s0 =
          fetchWithRetry_loop up u 3 1000 (attempt + 1) ?s3"
        using True a
        by (subst fetchWithRetry_loop.simps) (simp add: f Let_def)
      show ?thesis
        unfolding f fst_conv snd_conv l r ih ..
    qed
  qed
qed

lemma run_batch_single:
  "run_batch sched up chk [p] s = (case awaited chk up p s of (r, s') \<Rightarrow> ([r], s'))"
proof (cases "plan chk p")
  case (Immediately r)
  then show ?thesis
    by (simp add: run_batch_def start_member_def awaited_def settle_all_single_settled
        result_of_def)
next
  case (Request u)
  let ?s1 = "console_log (announce chk p) s"
  obtain x0 sf where f: "fetch up u ?s1 = (x0, sf)"
    by (cases "fetch up u ?s1")
  obtain x s1 where l: "fetchWithRetry_loop up u 3 1000 1 ?s1 = (x, s1)"
    by (cases "fetchWithRetry_loop up u 3 1000 1 ?s1")
  obtain r s2 where c: "conclude chk p (parsed x) s1 = (r, s2)"
    by (cases "conclude chk p (parsed x) s1")
  have "settle_all sched up chk [(p, Pending u (AwaitingResponse 1 (fst (fetch up u ?s1))))]
      (snd (fetch up u ?s1)) =
    (case fetchWithRetry_loop up u 3 1000 1 ?s1 of (x, s1) \<Rightarrow>
       (case conclude chk p (parsed x) s1 of (r, s2) \<Rightarrow> ([(p, Settled r)], s2)))"
    by (rule settle_all_single_response) simp
  then have "settle_all sched up chk [(p, Pending u (AwaitingResponse 1 x0))] sf
      = ([(p, Settled r)], s2)"
    by (simp add: f l c del: One_nat_def)
  then show ?thesis
    using Request
    by (simp add: run_batch_def start_member_def awaited_def send_request_def f l c
        fetchWithRetry_default_def fetchWithRetry_def result_of_def del: One_nat_def)
qed

subsection \<open>The two checkers\<close>

lemma json_Inr: "json response = Inr b \<longleftrightarrow> body response = Some b"
  by (simp add: json_def split: option.splits)

lemma entries_copy_fields:
  "map f (map to_entry (enumerate n rs)) = map g rs"
  if "\<And>i r. f (to_entry (i, r)) = g r"
  using that by (induction rs arbitrary: n) simp_all

text \<open>
  What holds of the two checkers. The version-scoped one, on a reference with no
  latest version, returns a record at once, without a request, that keeps the
  reference's timestamp and repository URL.
\<close>

lemma fetchPackageAttestation_no_version:
  "falsy (latest_release_number pkg) \<Longrightarrow>
   fetchPackageAttestation up pkg s =
     (Some \<lparr>name = pkg_name pkg, version = [],
            lastUploaded =
              Str (case latest_release_published_at pkg of None \<Rightarrow> [] | Some t \<Rightarrow> t),
            attestationsUrl = [], trustedPublisherId = [],
            repositoryUrl = (case repository_url pkg of None \<Rightarrow> [] | Some r \<Rightarrow> r)\<rparr>,
      s @ [Log (Skipping (pkg_name pkg))])"
  by (simp add: fetchPackageAttestation_def or_empty_def console_log_def)

text \<open>
  The full-document one returns null exactly when the document has no latest
  tag, or nothing is found under that tag in the version map, neither an entry
  of the map nor a member of \<open>Object.prototype\<close>.
\<close>

lemma read_package_document_None:
  "read_package_document packageName metadata = None \<longleftrightarrow>
     falsy (Option.bind (dist_tags metadata) latest)
     \<or> (versions metadata (or_empty (Option.bind (dist_tags metadata) latest)) = None
        \<and> or_empty (Option.bind (dist_tags metadata) latest) \<notin> set object_prototype_members)"
  by (auto simp: read_package_document_def Let_def get_property_def not_found_def
      split: option.splits)

text \<open>
  Every field of a version-scoped record is a string, empty where the upstream
  value is absent or null.
\<close>

lemma fetchPackageAttestation_record:
  assumes "fetchPackageAttestation up pkg s = (Some r, s')"
  shows "name r = pkg_name pkg"
    and "version r = (case latest_release_number pkg of None \<Rightarrow> [] | Some v \<Rightarrow> v)"
    and "lastUploaded r =
          Str (case latest_release_published_at pkg of None \<Rightarrow> [] | Some t \<Rightarrow> t)"
    and "repositoryUrl r = (case repository_url pkg of None \<Rightarrow> [] | Some u \<Rightarrow> u)"
  using assms
  by (auto simp: fetchPackageAttestation_def Let_def or_empty_def falsy_def
      split: if_splits prod.splits sum.splits option.splits)

text \<open>
  C4. The claim holds of the version-scoped checker, and the full-document
  checker is written to return null when the version map has no entry for the
  latest tag; but the test \<open>!metadata.versions[latestVersion]\<close> also finds what
  the map inherits. The document here names \<open>constructor\<close> as latest and has
  no versions: the map has no entry for it, and yet the checker returns a
  record, of version \<open>constructor\<close>, instead of null.
\<close>

theorem constructor_tag_is_not_dropped:
  "versions constructor_document ''constructor'' = None
   \<and> fetchPackageAttestation_full constructor_registry ''left-pad'' [] =
       (Some \<lparr>name = ''left-pad'', version = ''constructor'', lastUploaded = Str [],
              attestationsUrl = [], trustedPublisherId = [], repositoryUrl = []\<rparr>,
        [Log (Checking ''left-pad''), Fetch ''https://registry.npmjs.org/left-pad''])"
  by (simp add: constructor_document_def) code_simp

text \<open>
  C8. The claim holds of the version-scoped checker, and the full-document
  checker writes \<open>|| ''\<close> after every field it reads; but on the document that
  names \<open>constructor\<close> as latest and has an empty \<open>time\<close> object,
  \<open>metadata.time?.[latestVersion]\<close> is the inherited constructor function,
  which is truthy: \<open>lastUploaded\<close> is that function, not a string, in the
  record and in the entry of the report.
\<close>

theorem constructor_tag_lastUploaded_is_no_string:
  "fetchPackageAttestation_full timed_constructor_registry ''left-pad'' [] =
     (Some \<lparr>name = ''left-pad'', version = ''constructor'',
            lastUploaded = PrototypeMember ''constructor'',
            attestationsUrl = [], trustedPublisherId = [], repositoryUrl = []\<rparr>,
      [Log (Checking ''left-pad''), Fetch ''https://registry.npmjs.org/left-pad''])
   \<and> map entry_lastUploaded
        (packages (build_report ''2026-11-02T00:00:00.000Z''
           [\<lparr>name = ''left-pad'', version = ''constructor'',
             lastUploaded = PrototypeMember ''constructor'',
             attestationsUrl = [], trustedPublisherId = [], repositoryUrl = []\<rparr>]))
      = [PrototypeMember ''constructor'']"
  by code_simp

subsection \<open>The summary\<close>

lemma pow2_powi: "pow2 e = 2 powi e"
  by (simp add: pow2_def power_int_def inverse_eq_divide power_one_over)

lemma pow2_pos: "0 < pow2 e"
  by (simp add: pow2_powi)

lemma pow2_add: "pow2 (a + b) = pow2 a * pow2 b"
  by (simp add: pow2_powi power_int_add)

lemma pow2_less: "a < b \<Longrightarrow> pow2 a < pow2 b"
  by (simp add: pow2_powi power_int_strict_increasing)

lemma pow2_le_iff: "pow2 a \<le> pow2 b \<longleftrightarrow> a \<le> b"
proof
  assume h: "pow2 a \<le> pow2 b"
  show "a \<le> b"
  proof (rule ccontr)
    assume "\<not> a \<le> b"
    then have "pow2 b < pow2 a" by (simp add: pow2_less)
    with h show False by simp
  qed
next
  assume "a \<le> b"
  then show "pow2 a \<le> pow2 b"
    by (simp add: pow2_powi power_int_increasing)
qed

lemma pow2_less_iff: "pow2 a < pow2 b \<longleftrightarrow> a < b"
  by (metis pow2_le_iff linorder_not_le)

lemma pow2_nat: "pow2 (int n) = 2 ^ n"
  by (simp add: pow2_powi)

lemma pow2_neg: "pow2 (- int n) = 1 / 2 ^ n"
  by (simp add: pow2_powi power_int_minus_divide)

lemma ilog2_bounds:
  "1 \<le> n \<Longrightarrow> 0 \<le> ilog2 n \<and> 2 ^ nat (ilog2 n) \<le> n \<and> n < 2 * 2 ^ nat (ilog2 n)"
proof (induction n rule: ilog2.induct)
  case (1 n)
  show ?case
  proof (cases "n < 2")
    case True
    with "1.prems" have "n = 1" by simp
    then show ?thesis
      by (subst ilog2.simps, subst (2) ilog2.simps, subst (3) ilog2.simps) simp
  next
    case False
    then have h: "1 \<le> n div 2" by simp
    from "1.IH" [OF False h] have
      a: "0 \<le> ilog2 (n div 2)"
      and b: "2 ^ nat (ilog2 (n div 2)) \<le> n div 2"
      and c: "n div 2 < 2 * 2 ^ nat (ilog2 (n div 2))"
      by simp_all
    have e: "ilog2 n = 1 + ilog2 (n div 2)"
      using False by (subst ilog2.simps) simp
    have n: "nat (1 + ilog2 (n div 2)) = Suc (nat (ilog2 (n div 2)))"
      using a by simp
    have "2 * 2 ^ nat (ilog2 (n div 2)) \<le> n"
      using b by linarith
    moreover have "n < 2 * (2 * 2 ^ nat (ilog2 (n div 2)))"
      using c by linarith
    ultimately show ?thesis
      using a by (simp add: e n)
  qed
qed

lemma pow2_of_nonneg: "0 \<le> a \<Longrightarrow> pow2 a = 2 ^ nat a"
  by (simp add: pow2_def)

lemma pow2_diff: "0 \<le> a \<Longrightarrow> 0 \<le> b \<Longrightarrow> pow2 (a - b) = 2 ^ nat a / 2 ^ nat b"
proof -
  assume a: "0 \<le> a" and b: "0 \<le> b"
  have "pow2 (a - b) = pow2 a * pow2 (- b)"
    using pow2_add [of a "- b"] by simp
  also have "pow2 (- b) = 1 / 2 ^ nat b"
    using pow2_neg [of "nat b"] b by simp
  finally show ?thesis
    using a by (simp add: pow2_of_nonneg)
qed

lemma pow2_Suc: "pow2 (e + 1) = 2 * pow2 e"
  using pow2_add [of e 1] by (simp add: pow2_def)

lemma pow2_pred: "pow2 (e - 1) = pow2 e / 2"
  using pow2_Suc [of "e - 1"] by simp

lemma exponent_bracket:
  assumes "0 < x"
  shows "pow2 (exponent x) \<le> x \<and> x < pow2 (exponent x + 1)"
proof -
  obtain p q where pq: "quotient_of x = (p, q)"
    by (cases "quotient_of x")
  then have q: "0 < q" and x: "x = of_int p / of_int q"
    by (simp_all add: quotient_of_denom_pos quotient_of_div)
  from assms x q have p: "0 < p"
    by (simp add: zero_less_divide_iff)
  let ?a = "ilog2 p" and ?b = "ilog2 q"
  let ?A = "(2::rat) ^ nat ?a" and ?B = "(2::rat) ^ nat ?b"
  from ilog2_bounds [of p] p have a: "0 \<le> ?a" and pa: "2 ^ nat ?a \<le> p" "p < 2 * 2 ^ nat ?a"
    by simp_all
  from ilog2_bounds [of q] q have b: "0 \<le> ?b" and qb: "2 ^ nat ?b \<le> q" "q < 2 * 2 ^ nat ?b"
    by simp_all
  have pa': "?A \<le> of_int p" "of_int p < 2 * ?A"
  proof -
    have "(of_int (2 ^ nat ?a) :: rat) \<le> of_int p"
      using pa(1) by (simp only: of_int_le_iff)
    then show "?A \<le> of_int p" by simp
    have "(of_int p :: rat) < of_int (2 * 2 ^ nat ?a)"
      using pa(2) by (simp only: of_int_less_iff)
    then show "of_int p < 2 * ?A" by simp
  qed
  have qb': "?B \<le> of_int q" "of_int q < 2 * ?B"
  proof -
    have "(of_int (2 ^ nat ?b) :: rat) \<le> of_int q"
      using qb(1) by (simp only: of_int_le_iff)
    then show "?B \<le> of_int q" by simp
    have "(of_int q :: rat) < of_int (2 * 2 ^ nat ?b)"
      using qb(2) by (simp only: of_int_less_iff)
    then show "of_int q < 2 * ?B" by simp
  qed
  have Bpos: "0 < ?B" and Apos: "0 < ?A" by simp_all
  have qpos: "(0::rat) < of_int q" using q by simp
  have g: "pow2 (?a - ?b) = ?A / ?B"
    using a b by (rule pow2_diff)
  have upper: "x < 2 * (?A / ?B)"
  proof -
    have "x * ?B \<le> x * of_int q"
      using qb'(1) assms by (simp add: mult_left_mono)
    also have "x * of_int q = of_int p"
      using x qpos by simp
    also have "\<dots> < 2 * ?A" by (rule pa'(2))
    finally have "x * ?B < 2 * ?A" .
    then show ?thesis
      using Bpos by (simp add: pos_less_divide_eq)
  qed
  have lower: "?A / ?B / 2 \<le> x"
  proof -
    have "?A \<le> of_int p" by (rule pa'(1))
    also have "of_int p = x * of_int q"
      using x qpos by simp
    also have "\<dots> \<le> x * (2 * ?B)"
      using qb'(2) assms by (simp add: mult_left_mono less_imp_le)
    finally have "?A \<le> x * (2 * ?B)" .
    then have "?A / (2 * ?B) \<le> x"
      using Bpos by (simp add: pos_divide_le_eq)
    then show ?thesis by simp
  qed
  show ?thesis
  proof (cases "pow2 (?a - ?b) \<le> x")
    case True
    then have e: "exponent x = ?a - ?b"
      by (simp add: exponent_def pq)
    show ?thesis
      using True upper by (simp add: e pow2_Suc g)
  next
    case False
    then have e: "exponent x = ?a - ?b - 1"
      by (simp add: exponent_def pq)
    have "pow2 (?a - ?b - 1) \<le> x"
      using lower by (simp add: pow2_pred g)
    moreover have "x < pow2 (?a - ?b - 1 + 1)"
      using False by simp
    ultimately show ?thesis
      by (simp only: e)
  qed
qed

lemma exponent_ge: "0 < x \<Longrightarrow> pow2 k \<le> x \<Longrightarrow> k \<le> exponent x"
proof -
  assume x: "0 < x" and k: "pow2 k \<le> x"
  from exponent_bracket [OF x] k have "pow2 k < pow2 (exponent x + 1)"
    by simp
  then have "k < exponent x + 1" by (simp add: pow2_less_iff)
  then show ?thesis by simp
qed

lemma round_half_even_error: "\<bar>of_int (round_half_even z) - z\<bar> \<le> 1 / 2"
proof -
  have f: "of_int \<lfloor>z\<rfloor> \<le> z" "z < of_int \<lfloor>z\<rfloor> + 1"
    by linarith+
  show ?thesis
    using f by (auto simp: round_half_even_def Let_def abs_le_iff)
qed

lemma round_double_error:
  assumes x: "0 < x" and n: "pow2 (- 1022) \<le> x"
  shows "\<bar>round_double x - x\<bar> \<le> x / 2 ^ 53"
proof -
  let ?e = "exponent x"
  let ?ulp = "pow2 (?e - 52)"
  have e: "- 1022 \<le> ?e" using exponent_ge [OF x n] .
  have u: "0 < ?ulp" by (rule pow2_pos)
  have r: "round_double x = of_int (round_half_even (x / ?ulp)) * ?ulp"
    using x e by (simp add: round_double_def Let_def max_def)
  have "\<bar>round_double x - x\<bar> = \<bar>of_int (round_half_even (x / ?ulp)) - x / ?ulp\<bar> * ?ulp"
  proof -
    have "round_double x - x = (of_int (round_half_even (x / ?ulp)) - x / ?ulp) * ?ulp"
      using u by (simp add: r left_diff_distrib)
    then show ?thesis
      using u by (simp add: abs_mult)
  qed
  also have "\<dots> \<le> 1 / 2 * ?ulp"
    using round_half_even_error [of "x / ?ulp"] u by (simp add: mult_right_mono)
  also have "1 / 2 * ?ulp = pow2 ?e / 2 ^ 53"
  proof -
    have "pow2 (?e - 52) = pow2 ?e * pow2 (- 52)"
      using pow2_add [of ?e "- 52"] by simp
    also have "pow2 (- 52) = 1 / 2 ^ 52"
      using pow2_neg [of 52] by simp
    finally show ?thesis by simp
  qed
  also have "\<dots> \<le> x / 2 ^ 53"
    using exponent_bracket [OF x] by (simp add: divide_right_mono)
  finally show ?thesis .
qed

lemma round_double_0: "round_double 0 = 0"
  by (simp add: round_double_def)

lemma pow2_m1022_le: "k \<le> 1022 \<Longrightarrow> pow2 (- 1022) \<le> 1 / 2 ^ k"
proof -
  assume "k \<le> 1022"
  then have "pow2 (- 1022) \<le> pow2 (- int k)"
    by (simp add: pow2_le_iff)
  then show ?thesis by (simp add: pow2_neg)
qed

text \<open>
  The product that \<open>toFixed\<close> rounds is within \<open>300 / 2^53\<close> of the exact
  percentage.
\<close>

lemma double_percentage_error:
  fixes w t :: nat
  assumes w: "1 \<le> w" and wt: "w \<le> t" and t: "t < 2 ^ 32"
  shows "\<bar>round_double (round_double (of_nat w / of_nat t) * 100) - 100 * (of_nat w / of_nat t)\<bar>
           \<le> 300 / 2 ^ 53"
proof -
  define x :: rat where "x = of_nat w / of_nat t"
  define q where "q = round_double x"
  define y where "y = round_double (q * 100)"
  have tpos: "(0::rat) < of_nat t" using w wt by simp
  have xpos: "0 < x" using w tpos by (simp add: x_def)
  have x1: "x \<le> 1" using wt tpos by (simp add: x_def)
  have xlow: "1 / 2 ^ 32 \<le> x"
  proof -
    have "(of_nat t :: rat) \<le> of_nat (2 ^ 32)"
      using t by (simp only: of_nat_le_iff)
    then have "(of_nat t :: rat) \<le> 2 ^ 32" by simp
    then have "1 / 2 ^ 32 \<le> 1 / (of_nat t :: rat)"
      using tpos by (simp add: frac_le)
    also have "\<dots> \<le> of_nat w / of_nat t"
      using w tpos by (simp add: divide_right_mono)
    finally show ?thesis by (simp add: x_def)
  qed
  have n1: "pow2 (- 1022) \<le> x"
    using pow2_m1022_le [of 32] xlow by simp
  have eq: "\<bar>q - x\<bar> \<le> x / 2 ^ 53"
    unfolding q_def using xpos n1 by (rule round_double_error)
  have p53: "(2::rat) ^ 53 = 9007199254740992" by simp
  have qlow: "x / 2 \<le> q"
    using eq xpos unfolding p53 by linarith
  have qup: "q \<le> 2 * x"
    using eq xpos unfolding p53 by linarith
  have qpos: "0 < q" using qlow xpos by simp
  have n2: "pow2 (- 1022) \<le> q * 100"
  proof -
    have "pow2 (- 1022) \<le> 1 / 2 ^ 33"
      using pow2_m1022_le [of 33] by simp
    also have "\<dots> \<le> x / 2" using xlow by simp
    also have "\<dots> \<le> q * 100" using qlow qpos by simp
    finally show ?thesis .
  qed
  have ey: "\<bar>y - q * 100\<bar> \<le> q * 100 / 2 ^ 53"
    unfolding y_def using qpos n2 by (intro round_double_error) simp_all
  have "\<bar>y - 100 * x\<bar> = \<bar>(y - q * 100) + 100 * (q - x)\<bar>"
    by (simp add: algebra_simps)
  also have "\<dots> \<le> \<bar>y - q * 100\<bar> + \<bar>100 * (q - x)\<bar>"
    by (rule abs_triangle_ineq)
  also have "\<bar>100 * (q - x)\<bar> = 100 * \<bar>q - x\<bar>"
    by (simp only: abs_mult abs_numeral)
  finally have "\<bar>y - 100 * x\<bar> \<le> \<bar>y - q * 100\<bar> + 100 * \<bar>q - x\<bar>" .
  also have "\<dots> \<le> q * 100 / 2 ^ 53 + 100 * (x / 2 ^ 53)"
    using ey eq by simp
  also have "\<dots> \<le> 300 / 2 ^ 53"
    using qup x1 unfolding p53 by linarith
  finally show ?thesis
    by (simp add: y_def q_def x_def)
qed

lemma floor_near:
  fixes Y E :: rat and N D :: int
  assumes D: "0 < D" "D \<le> 2 ^ 33" and E: "E = of_int N / of_int D"
    and Y: "\<bar>Y - E\<bar> \<le> 3000 / 2 ^ 53"
  shows "\<lfloor>Y\<rfloor> = \<lfloor>E\<rfloor> \<or> \<lfloor>Y\<rfloor> = \<lfloor>E\<rfloor> - 1 \<and> N mod D = 0"
proof -
  have p53: "(2::rat) ^ 53 = 9007199254740992" by simp
  have Dr: "(0::rat) < of_int D" using D(1) by simp
  have fl: "\<lfloor>E\<rfloor> = N div D"
    unfolding E by (rule floor_divide_of_int_eq)
  have split: "E = of_int (N div D) + of_int (N mod D) / of_int D"
  proof -
    have "N = D * (N div D) + N mod D" by simp
    then have "(of_int N :: rat) = of_int D * of_int (N div D) + of_int (N mod D)"
      by (metis of_int_add of_int_mult)
    then show ?thesis
      using Dr by (simp add: E field_simps)
  qed
  have small: "(3000::rat) / 2 ^ 53 < 1 / of_int D"
  proof -
    have "(of_int D :: rat) \<le> of_int (2 ^ 33)"
      using D(2) by (simp only: of_int_le_iff)
    then have "(of_int D :: rat) \<le> 2 ^ 33" by simp
    then have "1 / 2 ^ 33 \<le> 1 / (of_int D :: rat)"
      using Dr by (simp add: frac_le)
    moreover have "(3000::rat) / 2 ^ 53 < 1 / 2 ^ 33" by simp
    ultimately show ?thesis by linarith
  qed
  have Yb: "E - 3000 / 2 ^ 53 \<le> Y" "Y \<le> E + 3000 / 2 ^ 53"
  proof -
    show "E - 3000 / 2 ^ 53 \<le> Y" using Y unfolding p53 by linarith
    show "Y \<le> E + 3000 / 2 ^ 53" using Y unfolding p53 by linarith
  qed
  show ?thesis
  proof (cases "N mod D = 0")
    case True
    then have Ei: "E = of_int (N div D)" using split by simp
    have lt1: "(3000::rat) / 2 ^ 53 < 1" by simp
    show ?thesis
    proof (cases "of_int (N div D) \<le> Y")
      case True
      then have "\<lfloor>Y\<rfloor> = N div D"
        using Yb(2) Ei lt1 by (intro floor_unique) linarith+
      then show ?thesis by (simp add: fl)
    next
      case False
      then have "\<lfloor>Y\<rfloor> = N div D - 1"
        using Yb(1) Ei lt1 by (intro floor_unique) (simp; linarith)+
      then show ?thesis using \<open>N mod D = 0\<close> by (simp add: fl)
    qed
  next
    case False
    have m: "1 \<le> N mod D" "N mod D \<le> D - 1"
      using False D(1) pos_mod_sign [of D N] pos_mod_bound [of D N] by linarith+
    have f1: "1 / of_int D \<le> (of_int (N mod D) :: rat) / of_int D"
    proof -
      have "(of_int 1 :: rat) \<le> of_int (N mod D)"
        using m(1) by (simp only: of_int_le_iff)
      then show ?thesis using Dr by (simp add: divide_right_mono)
    qed
    have f2: "(of_int (N mod D) :: rat) / of_int D \<le> 1 - 1 / of_int D"
    proof -
      have "(of_int (N mod D) :: rat) \<le> of_int (D - 1)"
        using m(2) by (simp only: of_int_le_iff)
      then have "(of_int (N mod D) :: rat) / of_int D \<le> of_int (D - 1) / of_int D"
        using Dr by (simp add: divide_right_mono)
      also have "\<dots> = 1 - 1 / of_int D"
        using Dr by (simp add: field_simps)
      finally show ?thesis .
    qed
    have "\<lfloor>Y\<rfloor> = N div D"
    proof (rule floor_unique)
      show "of_int (N div D) \<le> Y"
        using Yb(1) split f1 small by linarith
      show "Y < of_int (N div D) + 1"
        using Yb(2) split f2 small by linarith
    qed
    then show ?thesis by (simp add: fl)
  qed
qed

lemma entries_attested:
  "length (filter ((\<lambda>pkg. entry_attestationsUrl pkg \<noteq> []) \<circ> to_entry) (enumerate n rs))
     = length (filter (\<lambda>r. attestationsUrl r \<noteq> []) rs)"
  by (induction rs arbitrary: n) (simp_all add: to_entry_def)

lemma enumerate_eq_Nil: "enumerate n xs = [] \<longleftrightarrow> xs = []"
  by (cases xs) simp_all

text \<open>
  Known doubles: 0.1 is \<open>3602879701896397 / 2^55\<close>; integers up to \<open>2^53\<close>
  are exact; \<open>2^53 + 1\<close> is a tie and goes to the even neighbour.
\<close>

lemma round_double_examples:
  "round_double (1 / 10) = 3602879701896397 / 2 ^ 55"
  "round_double 100 = 100"
  "round_double (2 ^ 53 + 1) = 2 ^ 53"
  "round_double (2 ^ 53 + 3) = 2 ^ 53 + 4"
  by code_simp+

text \<open>
  What \<open>toFixed(1)\<close> prints is the exact percentage rounded to one decimal
  place, unless the exact percentage lies halfway between two one-decimal
  values: then it is that or the value below.
\<close>

lemma percentage_tenths:
  fixes w t :: nat
  assumes t1: "1 \<le> t" and wt: "w \<le> t" and t: "t < 2 ^ 32"
  shows "\<exists>n. toFixed1 (js_times (js_div w t) 100) = Tenths n \<and> 0 \<le> n
           \<and> (n = \<lfloor>1000 * of_nat w / of_nat t + 1 / 2 :: rat\<rfloor>
               \<or> n = \<lfloor>1000 * of_nat w / of_nat t + 1 / 2 :: rat\<rfloor> - 1
                 \<and> (2000 * w + t) mod (2 * t) = 0)"
proof -
  define x :: rat where "x = of_nat w / of_nat t"
  define y where "y = round_double (round_double x * 100)"
  define E :: rat where "E = 1000 * of_nat w / of_nat t + 1 / 2"
  define N :: int where "N = int (2000 * w + t)"
  define D :: int where "D = int (2 * t)"
  have tpos: "(0::rat) < of_nat t" using t1 by simp
  have f: "toFixed1 (js_times (js_div w t) 100) = Tenths \<lfloor>y * 10 + 1 / 2\<rfloor>"
    using t1 by (simp add: js_div_def js_times_def toFixed1_def y_def x_def)
  have err: "\<bar>y - 100 * x\<bar> \<le> 300 / 2 ^ 53"
  proof (cases "w = 0")
    case True
    then show ?thesis by (simp add: y_def x_def round_double_0)
  next
    case False
    then have "1 \<le> w" by simp
    from double_percentage_error [OF this wt t] show ?thesis
      by (simp add: y_def x_def)
  qed
  have Y: "\<bar>(y * 10 + 1 / 2) - E\<bar> \<le> 3000 / 2 ^ 53"
  proof -
    have "(y * 10 + 1 / 2) - E = 10 * (y - 100 * x)"
      by (simp add: E_def x_def algebra_simps)
    then have "\<bar>(y * 10 + 1 / 2) - E\<bar> = 10 * \<bar>y - 100 * x\<bar>"
      by (simp only: abs_mult abs_numeral)
    with err show ?thesis by simp
  qed
  have D0: "0 < D" and D33: "D \<le> 2 ^ 33"
  proof -
    show "0 < D" using t1 by (simp add: D_def)
    have "2 * t \<le> 2 ^ 33" using t by simp
    then have "int (2 * t) \<le> int (2 ^ 33)" by (simp only: of_nat_le_iff)
    then show "D \<le> 2 ^ 33" by (simp add: D_def)
  qed
  have EN: "E = of_int N / of_int D"
    using tpos by (simp add: E_def N_def D_def field_simps)
  from floor_near [OF D0 D33 EN Y] have
    c: "\<lfloor>y * 10 + 1 / 2\<rfloor> = \<lfloor>E\<rfloor> \<or> \<lfloor>y * 10 + 1 / 2\<rfloor> = \<lfloor>E\<rfloor> - 1 \<and> N mod D = 0" .
  have md: "N mod D = 0 \<longleftrightarrow> (2000 * w + t) mod (2 * t) = 0"
    unfolding N_def D_def by (simp only: zmod_int [symmetric] of_nat_eq_0_iff)
  have Ehalf: "1 / 2 \<le> E"
    using tpos by (simp add: E_def)
  have fE: "0 \<le> \<lfloor>E\<rfloor>" using Ehalf by (simp add: zero_le_floor)
  have fE1: "N mod D = 0 \<Longrightarrow> 1 \<le> \<lfloor>E\<rfloor>"
  proof -
    assume "N mod D = 0"
    then have "D dvd N" by (simp add: dvd_eq_mod_eq_0)
    then obtain k where k: "N = D * k" ..
    then have "E = of_int k" using D0 by (simp add: EN)
    with Ehalf have "(1::rat) / 2 \<le> of_int k" by simp
    then have "0 < k" by linarith
    with \<open>E = of_int k\<close> show ?thesis by simp
  qed
  define n where "n = \<lfloor>y * 10 + 1 / 2\<rfloor>"
  define e where "e = \<lfloor>E\<rfloor>"
  from c have c': "n = e \<or> n = e - 1 \<and> N mod D = 0" by (simp add: n_def e_def)
  from fE have e0: "0 \<le> e" by (simp only: e_def)
  from fE1 have e1: "N mod D = 0 \<Longrightarrow> 1 \<le> e" by (simp only: e_def)
  from c' e0 e1 have n0: "0 \<le> n" by auto
  have "toFixed1 (js_times (js_div w t) 100) = Tenths n" by (simp only: f n_def)
  moreover from c' have "n = e \<or> n = e - 1 \<and> (2000 * w + t) mod (2 * t) = 0"
    by (simp only: md)
  ultimately have "toFixed1 (js_times (js_div w t) 100) = Tenths n \<and> 0 \<le> n
           \<and> (n = e \<or> n = e - 1 \<and> (2000 * w + t) mod (2 * t) = 0)"
    using n0 by (intro conjI)
  then show ?thesis unfolding e_def E_def by (rule exI)
qed

lemma round_double_tenths:
  "0 \<le> n \<Longrightarrow> \<bar>round_double (of_int n / 10) - of_int n / 10\<bar> \<le> of_int n / 10 / 2 ^ 53"
proof (cases "n = 0")
  case True
  then show ?thesis by (simp add: round_double_0)
next
  case False
  assume "0 \<le> n"
  with False have n: "1 \<le> n" by simp
  then have "(of_int 1 :: rat) \<le> of_int n" by (simp only: of_int_le_iff)
  then have low: "(1::rat) / 10 \<le> of_int n / 10" by simp
  have "pow2 (- 1022) \<le> 1 / 2 ^ 4"
    using pow2_m1022_le [of 4] by simp
  also have "\<dots> \<le> (1::rat) / 10" by simp
  finally have "pow2 (- 1022) \<le> of_int n / 10" using low by linarith
  moreover have "(0::rat) < of_int n / 10" using low by linarith
  ultimately show ?thesis by (intro round_double_error)
qed

lemma percentage_3_of_7:
  "parseFloat (toFixed1 (js_times (js_div 3 7) 100)) = Fin (6037638250443571 / 2 ^ 47)"
  by code_simp

lemma percentage_23_of_80:
  "parseFloat (toFixed1 (js_times (js_div 23 80) 100)) = Fin (8078331831595827 / 2 ^ 48)"
  by code_simp

lemma round_to_one_decimal_tie:
  fixes w t :: nat
  assumes t: "0 < t" and m: "(2000 * w + t) mod (2 * t) = 0"
  shows "round_to_one_decimal (of_nat w / of_nat t * 100) - of_nat w / of_nat t * 100 = 1 / 20"
proof -
  from m have "2 * t dvd 2000 * w + t" by (simp add: dvd_eq_mod_eq_0)
  then obtain k where k: "2000 * w + t = 2 * t * k" ..
  then have "(of_nat (2000 * w + t) :: rat) = of_nat (2 * t * k)" by (simp only:)
  then have "(2000 * of_nat w + of_nat t :: rat) = 2 * of_nat t * of_nat k" by simp
  then have "(of_nat w / of_nat t * 100 * 10 + 1 / 2 :: rat) = of_nat k"
    using t by (simp add: field_simps)
  then have e: "(of_nat w / of_nat t * 100 * 10 + 1 / 2 :: rat) = of_int (int k)" by simp
  have "\<lfloor>of_nat w / of_nat t * 100 * 10 + 1 / 2 :: rat\<rfloor> = int k"
    by (simp only: e floor_of_int)
  then have "round_to_one_decimal (of_nat w / of_nat t * 100) = of_int (int k) / 10"
    by (simp only: round_to_one_decimal_def)
  also have "\<dots> = (of_nat w / of_nat t * 100 * 10 + 1 / 2) / 10" by (simp only: e)
  finally show ?thesis by (simp add: field_simps)
qed

text \<open>
  The specification's rounding takes 23 of 80, exactly 28.75, to 28.8. The
  script divides and multiplies in double precision: the double nearest to
  23 / 80 times 100 is a double just below 28.75, which \<open>toFixed(1)\<close> prints
  as 28.7, and the report holds the double nearest to 28.7.
\<close>

theorem percentage_23_of_80_counterexample:
  "twenty_three_of_eighty \<noteq> []
   \<and> report_summary (build_report ''2026-11-02T00:00:00.000Z'' twenty_three_of_eighty)
      = \<lparr>total_packages = 80, packages_with_attestations = 23,
         attestation_percentage = Fin (8078331831595827 / 2 ^ 48)\<rparr>
   \<and> round_to_one_decimal (23 / 80 * 100) = 288 / 10
   \<and> \<bar>8078331831595827 / 2 ^ 48 - 287 / 10 :: rat\<bar> < 1 / 10 ^ 14
   \<and> round_double (round_to_one_decimal (23 / 80 * 100)) = 8106479329266893 / 2 ^ 48
   \<and> (8078331831595827 / 2 ^ 48 :: rat) \<noteq> 8106479329266893 / 2 ^ 48"
  by code_simp

text \<open>
  C5, amended. For a non-empty list of records (fewer than \<open>2^32\<close>, as every
  array), total_packages is the number of records and
  packages_with_attestations the number of records with a non-empty
  attestationsUrl. attestation_percentage is a number \<open>p\<close> within relative
  distance \<open>2^-53\<close> of a one-decimal value \<open>n / 10\<close>, and \<open>n / 10\<close> is
  packages_with_attestations / total_packages * 100 rounded to one decimal
  place, except that when the exact percentage lies halfway between two
  one-decimal values \<open>n / 10\<close> is either of the two. 3 of 7 gives the double
  nearest to 42.9, which is \<open>6037638250443571 / 2^47\<close>.
\<close>

theorem summary_statistics:
  assumes "results \<noteq> []" and "length results < 2 ^ 32"
  shows "total_packages (report_summary (build_report now results)) = length results
    \<and> packages_with_attestations (report_summary (build_report now results))
        = length (filter (\<lambda>r. attestationsUrl r \<noteq> []) results)
    \<and> (\<exists>n p. attestation_percentage (report_summary (build_report now results)) = Fin p
          \<and> 0 \<le> n
          \<and> \<bar>p - of_int n / 10\<bar> \<le> of_int n / 10 / 2 ^ 53
          \<and> (of_int n / 10
                = round_to_one_decimal
                    (of_nat (length (filter (\<lambda>r. attestationsUrl r \<noteq> []) results))
                      / of_nat (length results) * 100)
              \<or> of_int n / 10
                  = round_to_one_decimal
                      (of_nat (length (filter (\<lambda>r. attestationsUrl r \<noteq> []) results))
                        / of_nat (length results) * 100) - 1 / 10
                \<and> round_to_one_decimal
                      (of_nat (length (filter (\<lambda>r. attestationsUrl r \<noteq> []) results))
                        / of_nat (length results) * 100)
                    - of_nat (length (filter (\<lambda>r. attestationsUrl r \<noteq> []) results))
                        / of_nat (length results) * 100 = 1 / 20))
    \<and> (length (filter (\<lambda>r. attestationsUrl r \<noteq> []) results) = 3 \<and> length results = 7
        \<longrightarrow> attestation_percentage (report_summary (build_report now results))
              = Fin (6037638250443571 / 2 ^ 47)
            \<and> \<bar>6037638250443571 / 2 ^ 47 - 429 / 10 :: rat\<bar> < 1 / 10 ^ 14)"
proof -
  define w where "w = length (filter (\<lambda>r. attestationsUrl r \<noteq> []) results)"
  define t where "t = length results"
  define x :: rat where "x = of_nat w / of_nat t * 100"
  have t1: "1 \<le> t" using assms(1) by (cases results) (simp_all add: t_def)
  have wt: "w \<le> t" by (simp add: w_def t_def)
  have t32: "t < 2 ^ 32" using assms(2) by (simp only: t_def)
  have tot: "total_packages (report_summary (build_report now results)) = t"
    by (simp add: build_report_def Let_def t_def)
  have att: "packages_with_attestations (report_summary (build_report now results)) = w"
    by (simp add: build_report_def Let_def entries_attested w_def)
  have p: "attestation_percentage (report_summary (build_report now results))
        = parseFloat (toFixed1 (js_times (js_div w t) 100))"
    by (simp add: build_report_def Let_def entries_attested w_def t_def)
  from percentage_tenths [OF t1 wt t32] obtain n where
    f: "toFixed1 (js_times (js_div w t) 100) = Tenths n" and n0: "0 \<le> n"
    and c: "n = \<lfloor>1000 * of_nat w / of_nat t + 1 / 2 :: rat\<rfloor>
           \<or> n = \<lfloor>1000 * of_nat w / of_nat t + 1 / 2 :: rat\<rfloor> - 1
             \<and> (2000 * w + t) mod (2 * t) = 0"
    by (elim exE conjE) (rule that)
  have r: "round_to_one_decimal x = of_int \<lfloor>1000 * of_nat w / of_nat t + 1 / 2 :: rat\<rfloor> / 10"
    by (simp add: round_to_one_decimal_def x_def algebra_simps)
  have tie: "(2000 * w + t) mod (2 * t) = 0 \<Longrightarrow> round_to_one_decimal x - x = 1 / 20"
    unfolding x_def using t1 by (intro round_to_one_decimal_tie) simp_all
  have c': "of_int n / 10 = round_to_one_decimal x
           \<or> of_int n / 10 = round_to_one_decimal x - 1 / 10
             \<and> round_to_one_decimal x - x = 1 / 20"
  proof -
    from c show ?thesis
    proof
      assume "n = \<lfloor>1000 * of_nat w / of_nat t + 1 / 2 :: rat\<rfloor>"
      then have "(of_int n :: rat) / 10 = round_to_one_decimal x" by (simp only: r)
      then show ?thesis by (rule disjI1)
    next
      assume a: "n = \<lfloor>1000 * of_nat w / of_nat t + 1 / 2 :: rat\<rfloor> - 1
             \<and> (2000 * w + t) mod (2 * t) = 0"
      then have "(of_int n :: rat) / 10 = round_to_one_decimal x - 1 / 10"
        by (simp add: r diff_divide_distrib)
      moreover from a have "round_to_one_decimal x - x = 1 / 20" by (intro tie) simp
      ultimately show ?thesis by (intro disjI2 conjI)
    qed
  qed
  have pv: "attestation_percentage (report_summary (build_report now results))
        = Fin (round_double (of_int n / 10))"
    by (simp add: p f parseFloat_def)
  have ex: "\<exists>n p. attestation_percentage (report_summary (build_report now results)) = Fin p
          \<and> 0 \<le> n
          \<and> \<bar>p - of_int n / 10\<bar> \<le> of_int n / 10 / 2 ^ 53
          \<and> (of_int n / 10 = round_to_one_decimal x
              \<or> of_int n / 10 = round_to_one_decimal x - 1 / 10
                \<and> round_to_one_decimal x - x = 1 / 20)"
    using pv n0 round_double_tenths [OF n0] c'
    by (intro exI [of _ n] exI [of _ "round_double (of_int n / 10)"] conjI)
  have e: "w = 3 \<and> t = 7
        \<longrightarrow> attestation_percentage (report_summary (build_report now results))
              = Fin (6037638250443571 / 2 ^ 47)
            \<and> \<bar>6037638250443571 / 2 ^ 47 - 429 / 10 :: rat\<bar> < 1 / 10 ^ 14"
    using percentage_3_of_7 by (simp add: p)
  from tot att ex e show ?thesis
    unfolding x_def w_def t_def by (intro conjI)
qed

theorem summary_statistics_witness:
  "three_of_seven \<noteq> []
   \<and> length three_of_seven < 2 ^ 32
   \<and> length three_of_seven = 7
   \<and> length (filter (\<lambda>r. attestationsUrl r \<noteq> []) three_of_seven) = 3
   \<and> report_summary (build_report ''2026-11-02T00:00:00.000Z'' three_of_seven)
      = \<lparr>total_packages = 7, packages_with_attestations = 3,
         attestation_percentage = Fin (6037638250443571 / 2 ^ 47)\<rparr>"
proof -
  have n: "three_of_seven \<noteq> []" by (simp add: three_of_seven_def)
  have l: "length three_of_seven = 7" by (simp add: three_of_seven_def)
  have b: "length three_of_seven < 2 ^ 32" by (simp add: l)
  have w: "length (filter (\<lambda>r. attestationsUrl r \<noteq> []) three_of_seven) = 3"
    by (simp add: three_of_seven_def with_attestation_def without_attestation_def)
  from summary_statistics [OF n b, of "''2026-11-02T00:00:00.000Z''"] l w
  have "total_packages (report_summary (build_report ''2026-11-02T00:00:00.000Z'' three_of_seven)) = 7"
    and "packages_with_attestations
          (report_summary (build_report ''2026-11-02T00:00:00.000Z'' three_of_seven)) = 3"
    and "attestation_percentage
          (report_summary (build_report ''2026-11-02T00:00:00.000Z'' three_of_seven))
         = Fin (6037638250443571 / 2 ^ 47)"
    by simp_all
  then have "report_summary (build_report ''2026-11-02T00:00:00.000Z'' three_of_seven)
      = \<lparr>total_packages = 7, packages_with_attestations = 3,
         attestation_percentage = Fin (6037638250443571 / 2 ^ 47)\<rparr>"
    by (cases "report_summary (build_report ''2026-11-02T00:00:00.000Z'' three_of_seven)") simp
  with n b l w show ?thesis by (intro conjI)
qed

subsection \<open>The batch loop\<close>

lemma batches_Nil: "batches [] = []"
  by (simp add: batches.simps)

lemma batches_eq_Nil: "batches xs = [] \<longleftrightarrow> xs = []"
  by (subst batches.simps) simp

lemma batches_drop:
  "i < length xs \<Longrightarrow>
   batches (drop i xs) = take batchSize (drop i xs) # batches (drop (i + batchSize) xs)"
  by (subst batches.simps) (simp add: add.commute)

lemma concat_batches: "concat (batches xs) = xs"
proof (induction xs rule: batches.induct)
  case (1 xs)
  then show ?case
    by (subst batches.simps) simp
qed

lemma length_batches:
  "map length (batches xs) =
     replicate (length xs div 10) 10 @ (if length xs mod 10 = 0 then [] else [length xs mod 10])"
proof (induction xs rule: batches.induct)
  case (1 xs)
  show ?case
  proof (cases "xs = []")
    case True
    then show ?thesis by (simp add: batches_Nil)
  next
    case ne: False
    show ?thesis
    proof (cases "length xs < 10")
      case True
      then have "drop batchSize xs = []" by (simp add: batchSize_def)
      with ne True show ?thesis
        by (subst batches.simps) (simp add: batches_Nil batchSize_def)
    next
      case False
      then obtain k where k: "length xs = 10 + k"
        by (metis le_Suc_ex not_less)
      have "map length (batches xs) = 10 # map length (batches (drop batchSize xs))"
        using ne False by (subst batches.simps) (simp add: batchSize_def)
      also have "map length (batches (drop batchSize xs)) =
          replicate (k div 10) 10 @ (if k mod 10 = 0 then [] else [k mod 10])"
        using "1.IH" [OF ne] k by (simp add: batchSize_def)
      finally show ?thesis
        using k by simp
    qed
  qed
qed

lemma non_null_append: "non_null (xs @ ys) = non_null xs @ non_null ys"
  by (simp add: non_null_def)

lemma non_null_filter: "map Some (non_null rs) = filter (\<lambda>r. r \<noteq> None) rs"
  by (induction rs) (auto simp: non_null_def)

lemma start_member_events:
  "\<exists>t. start_member up chk p s
          = ((p, t), s @ Log (announce chk p) # map Fetch (first_request chk p))
       \<and> on_plan chk (p, t)"
  by (cases "plan chk p")
     (auto simp: start_member_def first_request_def Let_def send_request_def fetch_def
        console_log_def on_plan_def split: outcome.splits)

lemma start_batch_events:
  "\<exists>ms. start_batch up chk b s = (ms, s @ start_events chk b)
        \<and> map fst ms = b \<and> list_all (on_plan chk) ms"
proof (induction b arbitrary: s)
  case Nil
  then show ?case by (simp add: start_events_def)
next
  case (Cons p ps)
  let ?d = "Log (announce chk p) # map Fetch (first_request chk p)"
  from start_member_events [of up chk p s] obtain t where
    m: "start_member up chk p s = ((p, t), s @ ?d)" and o: "on_plan chk (p, t)"
    by blast
  from Cons [of "s @ ?d"] obtain ms where
    b: "start_batch up chk ps (s @ ?d) = (ms, (s @ ?d) @ start_events chk ps)"
    and f: "map fst ms = ps" and l: "list_all (on_plan chk) ms"
    by blast
  have "start_batch up chk (p # ps) s = ((p, t) # ms, s @ start_events chk (p # ps))"
    by (simp add: m b start_events_def)
  with f l o show ?case by simp
qed

lemma step_member_events:
  assumes "on_plan chk (p, t)"
  shows "\<exists>t' d. step_member up chk (p, t) s = ((p, t'), s @ d)
           \<and> on_plan chk (p, t')
           \<and> filter is_invocation d = []
           \<and> set (fetch_urls d) \<subseteq> set (first_request chk p)"
  using assms
  by (auto simp: step_member_def resume_request_def send_request_def fetch_def conclude_def
        console_log_def sleep_def on_plan_def first_request_def Let_def
        split: task.splits pending.splits sum.splits outcome.splits)

lemma waiting_Nil: "waiting ms = [] \<longleftrightarrow> list_all (\<lambda>m. \<not> is_pending (snd m)) ms"
  by (auto simp: waiting_def filter_empty_conv list_all_length)

lemma planned_urls_update:
  "i < length ms \<Longrightarrow> set (first_request chk (fst (ms ! i))) \<subseteq> set (planned_urls chk (map fst ms))"
  by (auto simp: planned_urls_def) (metis nth_mem)

lemma settle_all_events:
  "list_all (on_plan chk) ms \<Longrightarrow>
   \<exists>ms' d. settle_all sched up chk ms s = (ms', s @ d)
      \<and> map fst ms' = map fst ms
      \<and> list_all (\<lambda>m. \<not> is_pending (snd m)) ms'
      \<and> filter is_invocation d = []
      \<and> set (fetch_urls d) \<subseteq> set (planned_urls chk (map fst ms))"
proof (induction sched up chk ms s rule: settle_all.induct)
  case (1 sched up chk ms s)
  show ?case
  proof (cases "waiting ms = []")
    case True
    then have "settle_all sched up chk ms s = (ms, s @ [])"
      by (subst settle_all.simps) simp
    moreover from True have "list_all (\<lambda>m. \<not> is_pending (snd m)) ms"
      by (simp only: waiting_Nil)
    ultimately show ?thesis
      by (intro exI [of _ ms] exI [of _ "[]"]) simp
  next
    case False
    define i where "i = waiting ms ! (sched s ms mod length (waiting ms))"
    from waiting_nth [OF False, of "sched s ms"] have i: "i < length ms"
      by (simp add: i_def)
    obtain p t where m: "ms ! i = (p, t)" by (cases "ms ! i")
    from "1.prems" i m have o: "on_plan chk (p, t)"
      by (metis list_all_length)
    from step_member_events [OF o, of up s] obtain t' d where
      st: "step_member up chk (p, t) s = ((p, t'), s @ d)"
      and o': "on_plan chk (p, t')"
      and n: "filter is_invocation d = []"
      and f: "set (fetch_urls d) \<subseteq> set (first_request chk p)"
      by blast
    have pl: "list_all (on_plan chk) (ms[i := (p, t')])"
    proof -
      have "on_plan chk (ms[i := (p, t')] ! n)" if "n < length ms" for n
        using that "1.prems" o' i by (cases "n = i") (simp_all add: list_all_length)
      then show ?thesis by (simp add: list_all_length)
    qed
    have fs: "map fst (ms[i := (p, t')]) = map fst ms"
      using i m by (simp add: map_update) (metis fst_conv list_update_id map_update)
    have st': "((p, t'), s @ d) = step_member up chk (ms ! i) s"
      using st m by simp
    from "1.IH" [OF False i_def st' pl]
    obtain ms' d' where
      r: "settle_all sched up chk (ms[i := (p, t')]) (s @ d) = (ms', (s @ d) @ d')"
      and f': "map fst ms' = map fst (ms[i := (p, t')])"
      and a: "list_all (\<lambda>m. \<not> is_pending (snd m)) ms'"
      and n': "filter is_invocation d' = []"
      and u': "set (fetch_urls d') \<subseteq> set (planned_urls chk (map fst (ms[i := (p, t')])))"
      by auto
    have "settle_all sched up chk ms s = (ms', s @ (d @ d'))"
      using False st m r by (subst settle_all.simps) (simp add: i_def [symmetric] Let_def)
    moreover have "set (fetch_urls (d @ d')) \<subseteq> set (planned_urls chk (map fst ms))"
      using f u' planned_urls_update [OF i, of chk] m
      by (auto simp: fetch_urls_append fs)
    ultimately show ?thesis
      using f' a n n' fs
      by (intro exI [of _ ms'] exI [of _ "d @ d'"]) simp
  qed
qed

lemma run_batch_events:
  "\<exists>ms d. run_batch sched up chk b s = (map (\<lambda>m. result_of (snd m)) ms, s @ start_events chk b @ d)
      \<and> members_at_return sched up chk (b, s) = ms
      \<and> map fst ms = b
      \<and> list_all (\<lambda>m. \<not> is_pending (snd m)) ms
      \<and> filter is_invocation d = []
      \<and> set (fetch_urls d) \<subseteq> set (planned_urls chk b)"
proof -
  from start_batch_events [of up chk b s] obtain ms0 where
    sb: "start_batch up chk b s = (ms0, s @ start_events chk b)"
    and f0: "map fst ms0 = b" and l0: "list_all (on_plan chk) ms0"
    by blast
  from settle_all_events [OF l0, of sched up "s @ start_events chk b"] obtain ms d where
    sa: "settle_all sched up chk ms0 (s @ start_events chk b) = (ms, (s @ start_events chk b) @ d)"
    and f: "map fst ms = map fst ms0"
    and a: "list_all (\<lambda>m. \<not> is_pending (snd m)) ms"
    and n: "filter is_invocation d = []"
    and u: "set (fetch_urls d) \<subseteq> set (planned_urls chk (map fst ms0))"
    by blast
  have "run_batch sched up chk b s = (map (\<lambda>m. result_of (snd m)) ms, s @ start_events chk b @ d)"
    by (simp add: run_batch_def sb sa)
  moreover have "members_at_return sched up chk (b, s) = ms"
    by (simp add: members_at_return_def sb sa)
  ultimately show ?thesis
    using f f0 a n u by (intro exI [of _ ms] exI [of _ d]) simp
qed

lemma schedule_eq_Nil: "schedule run bs s = [] \<longleftrightarrow> bs = []"
  by (cases bs) simp_all

lemma schedule_batches: "map fst (schedule run bs s) = bs"
  by (induction bs arbitrary: s) simp_all

lemma between_batches_Cons:
  "ds \<noteq> [] \<Longrightarrow> between_batches (d # ds) = d @ Sleep 1000 # between_batches ds"
  by (cases ds) simp_all

lemma batch_loop_schedule:
  assumes "\<forall>b s. \<exists>d. snd (run b s) = s @ d"
  shows "batch_loop run pkgs i acc s =
     (acc @ non_null (concat (map (outcomes_of run) (schedule run (batches (drop i pkgs)) s))),
      s @ between_batches (map (events_of run) (schedule run (batches (drop i pkgs)) s)))"
  using assms
proof (induction run pkgs i acc s rule: batch_loop.induct)
  case (1 run pkgs i acc s)
  note ext = "1.prems" [rule_format]
  show ?case
  proof (cases "i < length pkgs")
    case False
    then show ?thesis
      by (subst batch_loop.simps) (simp add: batches_Nil non_null_def)
  next
    case True
    define batch where "batch = take batchSize (drop i pkgs)"
    define rest where "rest = batches (drop (i + batchSize) pkgs)"
    obtain rs s1 where r: "run batch s = (rs, s1)" by (cases "run batch s")
    from ext [of batch s] r obtain d where d: "s1 = s @ d" by auto
    define s2 where "s2 = (if i + batchSize < length pkgs then sleep 1000 s1 else s1)"
    have e: "rest = [] \<longleftrightarrow> \<not> i + batchSize < length pkgs"
      by (auto simp: rest_def batches_eq_Nil)
    have b: "batches (drop i pkgs) = batch # rest"
      using batches_drop [OF True] by (simp only: batch_def rest_def)
    have sch: "schedule run (batches (drop i pkgs)) s = (batch, s) # schedule run rest s2"
      using e by (simp add: b r s2_def)
    have o: "outcomes_of run (batch, s) = rs" by (simp add: outcomes_of_def r)
    have ev: "events_of run (batch, s) = d" by (simp add: events_of_def r d)
    from "1.IH" [OF True batch_def r [symmetric] refl s2_def "1.prems"]
    have ih: "batch_loop run pkgs (i + batchSize) (acc @ non_null rs) s2 =
       ((acc @ non_null rs) @ non_null (concat (map (outcomes_of run) (schedule run rest s2))),
        s2 @ between_batches (map (events_of run) (schedule run rest s2)))"
      by (simp only: rest_def)
    have l: "batch_loop run pkgs i acc s
          = batch_loop run pkgs (i + batchSize) (acc @ non_null rs) s2"
      using True r by (subst batch_loop.simps) (simp add: batch_def [symmetric] s2_def Let_def)
    have t: "s2 @ between_batches (map (events_of run) (schedule run rest s2))
          = s @ between_batches (d # map (events_of run) (schedule run rest s2))"
    proof (cases "rest = []")
      case True
      with e show ?thesis by (simp add: s2_def d)
    next
      case False
      then have "map (events_of run) (schedule run rest s2) \<noteq> []"
        by (simp add: schedule_eq_Nil)
      from between_batches_Cons [OF this, of d] False e show ?thesis
        by (simp add: s2_def d sleep_def)
    qed
    show ?thesis
      by (simp only: l ih t sch list.map o ev concat.simps non_null_append append_assoc)
  qed
qed

lemma run_batch_extends: "\<forall>b s. \<exists>d. snd (run_batch sched up chk b s) = s @ d"
proof (intro allI)
  fix b s
  from run_batch_events [of sched up chk b s] show "\<exists>d. snd (run_batch sched up chk b s) = s @ d"
    by auto
qed

lemma invocations_start_events:
  assumes "\<And>p. is_invocation (Log (announce chk p))"
  shows "filter is_invocation (start_events chk b) = map (\<lambda>p. Log (announce chk p)) b"
proof (induction b)
  case Nil
  then show ?case by (simp add: start_events_def)
next
  case (Cons p ps)
  have "filter is_invocation (map Fetch us) = []" for us
    by (induction us) simp_all
  with Cons assms [of p] show ?case
    by (simp add: start_events_def)
qed

lemma fetch_urls_start_events: "fetch_urls (start_events chk b) = planned_urls chk b"
proof (induction b)
  case Nil
  then show ?case by (simp add: start_events_def planned_urls_def)
next
  case (Cons p ps)
  have "fetch_urls (map Fetch us) = us" for us
    by (induction us) simp_all
  with Cons show ?case
    by (simp add: start_events_def planned_urls_def fetch_urls_append)
qed

lemma invocations_between_batches:
  "filter is_invocation (between_batches ds) = concat (map (filter is_invocation) ds)"
  by (induction ds rule: between_batches.induct) simp_all

text \<open>What holds of every batch, whenever it is started.\<close>

lemma batch_in_turn:
  assumes inv: "\<And>p. is_invocation (Log (announce chk p))"
  shows "map fst (members_at_return sched up chk bs) = fst bs
    \<and> list_all (\<lambda>m. \<not> is_pending (snd m)) (members_at_return sched up chk bs)
    \<and> outcomes_of (run_batch sched up chk) bs
        = map (\<lambda>m. result_of (snd m)) (members_at_return sched up chk bs)
    \<and> length (outcomes_of (run_batch sched up chk) bs) = length (fst bs)
    \<and> take (length (start_events chk (fst bs))) (events_of (run_batch sched up chk) bs)
        = start_events chk (fst bs)
    \<and> filter is_invocation (events_of (run_batch sched up chk) bs)
        = map (\<lambda>p. Log (announce chk p)) (fst bs)
    \<and> set (fetch_urls (events_of (run_batch sched up chk) bs)) \<subseteq> set (planned_urls chk (fst bs))"
proof -
  obtain b s where bs: "bs = (b, s)" by (cases bs)
  from run_batch_events [of sched up chk b s] obtain ms d where
    r: "run_batch sched up chk b s = (map (\<lambda>m. result_of (snd m)) ms, s @ start_events chk b @ d)"
    and m: "members_at_return sched up chk (b, s) = ms"
    and f: "map fst ms = b"
    and a: "list_all (\<lambda>m. \<not> is_pending (snd m)) ms"
    and n: "filter is_invocation d = []"
    and u: "set (fetch_urls d) \<subseteq> set (planned_urls chk b)"
    by blast
  have o: "outcomes_of (run_batch sched up chk) bs = map (\<lambda>m. result_of (snd m)) ms"
    by (simp add: outcomes_of_def bs r)
  have e: "events_of (run_batch sched up chk) bs = start_events chk b @ d"
    by (simp add: events_of_def bs r)
  have l: "length (map (\<lambda>m. result_of (snd m)) ms) = length b"
    using f by (metis length_map)
  have m': "members_at_return sched up chk bs = ms" by (simp only: bs m)
  have fb: "fst bs = b" by (simp add: bs)
  have c1: "map fst (members_at_return sched up chk bs) = fst bs" by (simp only: m' fb f)
  have c2: "list_all (\<lambda>m. \<not> is_pending (snd m)) (members_at_return sched up chk bs)"
    by (simp only: m' a)
  have c3: "outcomes_of (run_batch sched up chk) bs
        = map (\<lambda>m. result_of (snd m)) (members_at_return sched up chk bs)"
    by (simp only: m' o)
  have c4: "length (outcomes_of (run_batch sched up chk) bs) = length (fst bs)"
    by (simp only: o l fb)
  have c5: "take (length (start_events chk (fst bs))) (events_of (run_batch sched up chk) bs)
        = start_events chk (fst bs)"
    by (simp add: e fb)
  have c6: "filter is_invocation (events_of (run_batch sched up chk) bs)
        = map (\<lambda>p. Log (announce chk p)) (fst bs)"
    using n invocations_start_events [of chk b, OF inv] by (simp add: e fb)
  have c7: "set (fetch_urls (events_of (run_batch sched up chk) bs))
        \<subseteq> set (planned_urls chk (fst bs))"
    using u by (simp add: e fb fetch_urls_append fetch_urls_start_events)
  from c1 c2 c3 c4 c5 c6 c7 show ?thesis by (intro conjI)
qed

lemma list_all_always: "(\<And>x. P x) \<Longrightarrow> list_all P xs"
  by (simp add: list_all_iff)

lemma concat_map_cong_length:
  "list_all (\<lambda>x. length (f x) = length (g x)) xs \<Longrightarrow>
   length (concat (map f xs)) = length (concat (map g xs))"
  by (induction xs) simp_all

lemma concat_map_fst: "concat (map (\<lambda>x. map h (fst x)) xs) = map h (concat (map fst xs))"
  by (induction xs) simp_all

text \<open>
  C2. The loop of main cuts the package list into consecutive batches of 10 in
  input order, the last one possibly smaller, and runs them in that order,
  with a pause of 1000 ms between two batches. Whatever the order in which
  responses and timers arrive: a batch starts by calling the checker on each of
  its members in turn, each member logging its line and sending its first
  request before any response is handled; the checker is called exactly once
  for each package of the list, in list order; when the batch returns every
  member has settled and the batch has one outcome for each member in member
  order, a member without a record included; all requests of a batch are for
  its own members' URLs and are sent before the next batch starts. The
  collected results are the outcomes that are records, in the order of the
  list. 25 packages give batches of 10, 10 and 5.
\<close>

theorem batch_schedule:
  assumes inv: "\<And>p. is_invocation (Log (announce chk p))"
  shows "concat (batches pkgs) = pkgs
    \<and> map length (batches pkgs) =
        replicate (length pkgs div 10) 10
          @ (if length pkgs mod 10 = 0 then [] else [length pkgs mod 10])
    \<and> (length pkgs = 25 \<longrightarrow> map length (batches pkgs) = [10, 10, 5])
    \<and> map fst (schedule (run_batch sched up chk) (batches pkgs) s) = batches pkgs
    \<and> snd (batch_loop (run_batch sched up chk) pkgs 0 [] s) =
        s @ between_batches (map (events_of (run_batch sched up chk))
              (schedule (run_batch sched up chk) (batches pkgs) s))
    \<and> filter is_invocation
          (between_batches (map (events_of (run_batch sched up chk))
              (schedule (run_batch sched up chk) (batches pkgs) s)))
        = map (\<lambda>p. Log (announce chk p)) pkgs
    \<and> list_all (\<lambda>bs.
          map fst (members_at_return sched up chk bs) = fst bs
          \<and> list_all (\<lambda>m. \<not> is_pending (snd m)) (members_at_return sched up chk bs)
          \<and> outcomes_of (run_batch sched up chk) bs
              = map (\<lambda>m. result_of (snd m)) (members_at_return sched up chk bs)
          \<and> length (outcomes_of (run_batch sched up chk) bs) = length (fst bs)
          \<and> take (length (start_events chk (fst bs))) (events_of (run_batch sched up chk) bs)
              = start_events chk (fst bs)
          \<and> filter is_invocation (events_of (run_batch sched up chk) bs)
              = map (\<lambda>p. Log (announce chk p)) (fst bs)
          \<and> set (fetch_urls (events_of (run_batch sched up chk) bs))
              \<subseteq> set (planned_urls chk (fst bs)))
        (schedule (run_batch sched up chk) (batches pkgs) s)
    \<and> length (concat (map (outcomes_of (run_batch sched up chk))
          (schedule (run_batch sched up chk) (batches pkgs) s))) = length pkgs
    \<and> map Some (fst (batch_loop (run_batch sched up chk) pkgs 0 [] s)) =
        filter (\<lambda>r. r \<noteq> None)
          (concat (map (outcomes_of (run_batch sched up chk))
             (schedule (run_batch sched up chk) (batches pkgs) s)))"
proof -
  let ?run = "run_batch sched up chk"
  let ?L = "schedule ?run (batches pkgs) s"
  have a: "concat (batches pkgs) = pkgs" by (rule concat_batches)
  have b: "map length (batches pkgs) =
        replicate (length pkgs div 10) 10
          @ (if length pkgs mod 10 = 0 then [] else [length pkgs mod 10])"
    by (rule length_batches)
  have c: "length pkgs = 25 \<longrightarrow> map length (batches pkgs) = [10, 10, 5]"
    by (simp add: length_batches numeral_2_eq_2)
  have d: "map fst ?L = batches pkgs" by (rule schedule_batches)
  have loop: "batch_loop ?run pkgs 0 [] s =
     ([] @ non_null (concat (map (outcomes_of ?run) ?L)),
      s @ between_batches (map (events_of ?run) ?L))"
    using batch_loop_schedule [OF run_batch_extends, of sched up chk pkgs 0 "[]" s] by simp
  have e: "snd (batch_loop ?run pkgs 0 [] s) = s @ between_batches (map (events_of ?run) ?L)"
    by (simp add: loop)
  have g: "list_all (\<lambda>bs.
          map fst (members_at_return sched up chk bs) = fst bs
          \<and> list_all (\<lambda>m. \<not> is_pending (snd m)) (members_at_return sched up chk bs)
          \<and> outcomes_of ?run bs
              = map (\<lambda>m. result_of (snd m)) (members_at_return sched up chk bs)
          \<and> length (outcomes_of ?run bs) = length (fst bs)
          \<and> take (length (start_events chk (fst bs))) (events_of ?run bs)
              = start_events chk (fst bs)
          \<and> filter is_invocation (events_of ?run bs)
              = map (\<lambda>p. Log (announce chk p)) (fst bs)
          \<and> set (fetch_urls (events_of ?run bs)) \<subseteq> set (planned_urls chk (fst bs))) ?L"
    by (rule list_all_always) (rule batch_in_turn [OF inv])
  have f: "filter is_invocation (between_batches (map (events_of ?run) ?L))
        = map (\<lambda>p. Log (announce chk p)) pkgs"
  proof -
    have "map (filter is_invocation) (map (events_of ?run) ?L)
        = map (\<lambda>bs. map (\<lambda>p. Log (announce chk p)) (fst bs)) ?L"
      using batch_in_turn [OF inv, of sched up] by simp
    then have "filter is_invocation (between_batches (map (events_of ?run) ?L))
        = concat (map (\<lambda>bs. map (\<lambda>p. Log (announce chk p)) (fst bs)) ?L)"
      by (simp only: invocations_between_batches)
    then show ?thesis
      by (simp only: concat_map_fst d a)
  qed
  have h: "length (concat (map (outcomes_of ?run) ?L)) = length pkgs"
  proof -
    have "list_all (\<lambda>bs. length (outcomes_of ?run bs) = length (fst bs)) ?L"
      using batch_in_turn [OF inv, of sched up] by (intro list_all_always) blast
    from concat_map_cong_length [OF this] show ?thesis
      by (simp only: d a)
  qed
  have i: "map Some (fst (batch_loop ?run pkgs 0 [] s)) =
        filter (\<lambda>r. r \<noteq> None) (concat (map (outcomes_of ?run) ?L))"
    by (simp add: loop non_null_filter)
  from a b c d e f g h i show ?thesis
    by (intro conjI)
qed

lemma twenty_five_outcomes:
  "map (map_option name)
     (concat (map (outcomes_of (run_batch by_event_count mixed_registry version_scoped))
        (schedule (run_batch by_event_count mixed_registry version_scoped)
           (batches twenty_five) []))) =
   [Some ''pkg-1'', Some ''pkg-2'', None, Some ''pkg-4'', Some ''pkg-5'', Some ''pkg-6'',
    Some ''pkg-7'', Some ''pkg-8'', Some ''pkg-9'', Some ''pkg-10'', Some ''pkg-11'',
    Some ''pkg-12'', Some ''pkg-13'', Some ''pkg-14'', Some ''pkg-15'', Some ''pkg-16'',
    Some ''pkg-17'', None, Some ''pkg-19'', Some ''pkg-20'', Some ''pkg-21'', Some ''pkg-22'',
    Some ''pkg-23'', Some ''pkg-24'', Some ''pkg-25'']"
  by code_simp

lemma twenty_five_events:
  "map (events_of (run_batch by_event_count mixed_registry version_scoped)) (schedule (run_batch by_event_count mixed_registry version_scoped) (batches twenty_five) []) =
   [[Log (Checking ''pkg-1@1.0.0''), Fetch ''https://registry.npmjs.org/pkg-1/1.0.0'',
       Log (Checking ''pkg-2@1.0.0''), Fetch ''https://registry.npmjs.org/pkg-2/1.0.0'',
       Log (Checking ''pkg-3@1.0.0''), Fetch ''https://registry.npmjs.org/pkg-3/1.0.0'',
       Log (Checking ''pkg-4@1.0.0''), Fetch ''https://registry.npmjs.org/pkg-4/1.0.0'',
       Log (Checking ''pkg-5@1.0.0''), Fetch ''https://registry.npmjs.org/pkg-5/1.0.0'',
       Log (Checking ''pkg-6@1.0.0''), Fetch ''https://registry.npmjs.org/pkg-6/1.0.0'',
       Log (Skipping ''pkg-7''),
       Log (Checking ''pkg-8@1.0.0''), Fetch ''https://registry.npmjs.org/pkg-8/1.0.0'',
       Log (Checking ''pkg-9@1.0.0''), Fetch ''https://registry.npmjs.org/pkg-9/1.0.0'',
       Log (Checking ''pkg-10@1.0.0''), Fetch ''https://registry.npmjs.org/pkg-10/1.0.0'',
       Log (ErrorChecking ''pkg-3'' (HttpError 404))],
    [Log (Checking ''pkg-11@1.0.0''), Fetch ''https://registry.npmjs.org/pkg-11/1.0.0'',
       Log (Checking ''pkg-12@1.0.0''), Fetch ''https://registry.npmjs.org/pkg-12/1.0.0'',
       Log (Checking ''pkg-13@1.0.0''), Fetch ''https://registry.npmjs.org/pkg-13/1.0.0'',
       Log (Skipping ''pkg-14''),
       Log (Checking ''pkg-15@1.0.0''), Fetch ''https://registry.npmjs.org/pkg-15/1.0.0'',
       Log (Checking ''pkg-16@1.0.0''), Fetch ''https://registry.npmjs.org/pkg-16/1.0.0'',
       Log (Checking ''pkg-17@1.0.0''), Fetch ''https://registry.npmjs.org/pkg-17/1.0.0'',
       Log (Checking ''pkg-18@1.0.0''), Fetch ''https://registry.npmjs.org/pkg-18/1.0.0'',
       Log (Checking ''pkg-19@1.0.0''), Fetch ''https://registry.npmjs.org/pkg-19/1.0.0'',
       Log (Checking ''pkg-20@1.0.0''), Fetch ''https://registry.npmjs.org/pkg-20/1.0.0'',
       Log (ErrorChecking ''pkg-18'' NetworkError),
       Log (RetryWarning 503 1 3 1000), Sleep 1000,
       Fetch ''https://registry.npmjs.org/pkg-12/1.0.0''],
    [Log (Skipping ''pkg-21''),
       Log (Checking ''pkg-22@1.0.0''), Fetch ''https://registry.npmjs.org/pkg-22/1.0.0'',
       Log (Checking ''pkg-23@1.0.0''), Fetch ''https://registry.npmjs.org/pkg-23/1.0.0'',
       Log (Checking ''pkg-24@1.0.0''), Fetch ''https://registry.npmjs.org/pkg-24/1.0.0'',
       Log (Checking ''pkg-25@1.0.0''), Fetch ''https://registry.npmjs.org/pkg-25/1.0.0'']]"
  by code_simp

lemma names_of_records:
  "map (\<lambda>r. name (the r)) (filter (\<lambda>r. r \<noteq> None) rs)
     = map the (filter (\<lambda>n. n \<noteq> None) (map (map_option name) rs))"
  by (induction rs) auto

theorem batch_schedule_witness:
  "map length (batches twenty_five) = [10, 10, 5]
   \<and> map name (fst (batch_loop (run_batch by_event_count mixed_registry version_scoped) twenty_five 0 [] [])) =
      [''pkg-1'', ''pkg-2'', ''pkg-4'', ''pkg-5'', ''pkg-6'', ''pkg-7'', ''pkg-8'',
     ''pkg-9'', ''pkg-10'', ''pkg-11'', ''pkg-12'', ''pkg-13'', ''pkg-14'', ''pkg-15'',
     ''pkg-16'', ''pkg-17'', ''pkg-19'', ''pkg-20'', ''pkg-21'', ''pkg-22'', ''pkg-23'',
     ''pkg-24'', ''pkg-25'']
   \<and> snd (batch_loop (run_batch by_event_count mixed_registry version_scoped) twenty_five 0 [] []) =
      [Log (Checking ''pkg-1@1.0.0''), Fetch ''https://registry.npmjs.org/pkg-1/1.0.0'',
       Log (Checking ''pkg-2@1.0.0''), Fetch ''https://registry.npmjs.org/pkg-2/1.0.0'',
       Log (Checking ''pkg-3@1.0.0''), Fetch ''https://registry.npmjs.org/pkg-3/1.0.0'',
       Log (Checking ''pkg-4@1.0.0''), Fetch ''https://registry.npmjs.org/pkg-4/1.0.0'',
       Log (Checking ''pkg-5@1.0.0''), Fetch ''https://registry.npmjs.org/pkg-5/1.0.0'',
       Log (Checking ''pkg-6@1.0.0''), Fetch ''https://registry.npmjs.org/pkg-6/1.0.0'',
       Log (Skipping ''pkg-7''),
       Log (Checking ''pkg-8@1.0.0''), Fetch ''https://registry.npmjs.org/pkg-8/1.0.0'',
       Log (Checking ''pkg-9@1.0.0''), Fetch ''https://registry.npmjs.org/pkg-9/1.0.0'',
       Log (Checking ''pkg-10@1.0.0''), Fetch ''https://registry.npmjs.org/pkg-10/1.0.0'',
       Log (ErrorChecking ''pkg-3'' (HttpError 404))]
      @ Sleep 1000 #
      [Log (Checking ''pkg-11@1.0.0''), Fetch ''https://registry.npmjs.org/pkg-11/1.0.0'',
       Log (Checking ''pkg-12@1.0.0''), Fetch ''https://registry.npmjs.org/pkg-12/1.0.0'',
       Log (Checking ''pkg-13@1.0.0''), Fetch ''https://registry.npmjs.org/pkg-13/1.0.0'',
       Log (Skipping ''pkg-14''),
       Log (Checking ''pkg-15@1.0.0''), Fetch ''https://registry.npmjs.org/pkg-15/1.0.0'',
       Log (Checking ''pkg-16@1.0.0''), Fetch ''https://registry.npmjs.org/pkg-16/1.0.0'',
       Log (Checking ''pkg-17@1.0.0''), Fetch ''https://registry.npmjs.org/pkg-17/1.0.0'',
       Log (Checking ''pkg-18@1.0.0''), Fetch ''https://registry.npmjs.org/pkg-18/1.0.0'',
       Log (Checking ''pkg-19@1.0.0''), Fetch ''https://registry.npmjs.org/pkg-19/1.0.0'',
       Log (Checking ''pkg-20@1.0.0''), Fetch ''https://registry.npmjs.org/pkg-20/1.0.0'',
       Log (ErrorChecking ''pkg-18'' NetworkError),
       Log (RetryWarning 503 1 3 1000), Sleep 1000,
       Fetch ''https://registry.npmjs.org/pkg-12/1.0.0'']
      @ Sleep 1000 #
      [Log (Skipping ''pkg-21''),
       Log (Checking ''pkg-22@1.0.0''), Fetch ''https://registry.npmjs.org/pkg-22/1.0.0'',
       Log (Checking ''pkg-23@1.0.0''), Fetch ''https://registry.npmjs.org/pkg-23/1.0.0'',
       Log (Checking ''pkg-24@1.0.0''), Fetch ''https://registry.npmjs.org/pkg-24/1.0.0'',
       Log (Checking ''pkg-25@1.0.0''), Fetch ''https://registry.npmjs.org/pkg-25/1.0.0'']
   \<and> filter is_invocation (snd (batch_loop (run_batch by_event_count mixed_registry version_scoped) twenty_five 0 [] []))
      = map (\<lambda>p. Log (announce version_scoped p)) twenty_five"
proof -
  let ?run = "run_batch by_event_count mixed_registry version_scoped"
  let ?L = "schedule ?run (batches twenty_five) []"
  have inv: "is_invocation (Log (announce version_scoped p))" for p
    by (simp add: version_scoped_def)
  have l: "length twenty_five = 25" by (simp add: twenty_five_def)
  note t = batch_schedule [of version_scoped twenty_five by_event_count mixed_registry "[]",
      OF inv]
  from t l have a: "map length (batches twenty_five) = [10, 10, 5]" by blast
  from t have e: "snd (batch_loop ?run twenty_five 0 [] []) =
      [] @ between_batches (map (events_of ?run) ?L)"
    by blast
  from t have i: "filter is_invocation (between_batches (map (events_of ?run) ?L))
      = map (\<lambda>p. Log (announce version_scoped p)) twenty_five"
    by blast
  from t have r: "map Some (fst (batch_loop ?run twenty_five 0 [] [])) =
      filter (\<lambda>r. r \<noteq> None) (concat (map (outcomes_of ?run) ?L))"
    by blast
  have "map name (fst (batch_loop ?run twenty_five 0 [] []))
      = map (\<lambda>r. name (the r)) (map Some (fst (batch_loop ?run twenty_five 0 [] [])))"
    by (simp add: comp_def)
  also have "\<dots> = map the (filter (\<lambda>n. n \<noteq> None)
      (map (map_option name) (concat (map (outcomes_of ?run) ?L))))"
    by (simp only: r names_of_records)
  also have "\<dots> = [''pkg-1'', ''pkg-2'', ''pkg-4'', ''pkg-5'', ''pkg-6'', ''pkg-7'', ''pkg-8'',
     ''pkg-9'', ''pkg-10'', ''pkg-11'', ''pkg-12'', ''pkg-13'', ''pkg-14'', ''pkg-15'',
     ''pkg-16'', ''pkg-17'', ''pkg-19'', ''pkg-20'', ''pkg-21'', ''pkg-22'', ''pkg-23'',
     ''pkg-24'', ''pkg-25'']"
    by (simp only: twenty_five_outcomes) simp
  finally have b: "map name (fst (batch_loop ?run twenty_five 0 [] [])) =
      [''pkg-1'', ''pkg-2'', ''pkg-4'', ''pkg-5'', ''pkg-6'', ''pkg-7'', ''pkg-8'',
     ''pkg-9'', ''pkg-10'', ''pkg-11'', ''pkg-12'', ''pkg-13'', ''pkg-14'', ''pkg-15'',
     ''pkg-16'', ''pkg-17'', ''pkg-19'', ''pkg-20'', ''pkg-21'', ''pkg-22'', ''pkg-23'',
     ''pkg-24'', ''pkg-25'']" .
  have c: "snd (batch_loop ?run twenty_five 0 [] []) =
      [Log (Checking ''pkg-1@1.0.0''), Fetch ''https://registry.npmjs.org/pkg-1/1.0.0'',
       Log (Checking ''pkg-2@1.0.0''), Fetch ''https://registry.npmjs.org/pkg-2/1.0.0'',
       Log (Checking ''pkg-3@1.0.0''), Fetch ''https://registry.npmjs.org/pkg-3/1.0.0'',
       Log (Checking ''pkg-4@1.0.0''), Fetch ''https://registry.npmjs.org/pkg-4/1.0.0'',
       Log (Checking ''pkg-5@1.0.0''), Fetch ''https://registry.npmjs.org/pkg-5/1.0.0'',
       Log (Checking ''pkg-6@1.0.0''), Fetch ''https://registry.npmjs.org/pkg-6/1.0.0'',
       Log (Skipping ''pkg-7''),
       Log (Checking ''pkg-8@1.0.0''), Fetch ''https://registry.npmjs.org/pkg-8/1.0.0'',
       Log (Checking ''pkg-9@1.0.0''), Fetch ''https://registry.npmjs.org/pkg-9/1.0.0'',
       Log (Checking ''pkg-10@1.0.0''), Fetch ''https://registry.npmjs.org/pkg-10/1.0.0'',
       Log (ErrorChecking ''pkg-3'' (HttpError 404))]
      @ Sleep 1000 #
      [Log (Checking ''pkg-11@1.0.0''), Fetch ''https://registry.npmjs.org/pkg-11/1.0.0'',
       Log (Checking ''pkg-12@1.0.0''), Fetch ''https://registry.npmjs.org/pkg-12/1.0.0'',
       Log (Checking ''pkg-13@1.0.0''), Fetch ''https://registry.npmjs.org/pkg-13/1.0.0'',
       Log (Skipping ''pkg-14''),
       Log (Checking ''pkg-15@1.0.0''), Fetch ''https://registry.npmjs.org/pkg-15/1.0.0'',
       Log (Checking ''pkg-16@1.0.0''), Fetch ''https://registry.npmjs.org/pkg-16/1.0.0'',
       Log (Checking ''pkg-17@1.0.0''), Fetch ''https://registry.npmjs.org/pkg-17/1.0.0'',
       Log (Checking ''pkg-18@1.0.0''), Fetch ''https://registry.npmjs.org/pkg-18/1.0.0'',
       Log (Checking ''pkg-19@1.0.0''), Fetch ''https://registry.npmjs.org/pkg-19/1.0.0'',
       Log (Checking ''pkg-20@1.0.0''), Fetch ''https://registry.npmjs.org/pkg-20/1.0.0'',
       Log (ErrorChecking ''pkg-18'' NetworkError),
       Log (RetryWarning 503 1 3 1000), Sleep 1000,
       Fetch ''https://registry.npmjs.org/pkg-12/1.0.0'']
      @ Sleep 1000 #
      [Log (Skipping ''pkg-21''),
       Log (Checking ''pkg-22@1.0.0''), Fetch ''https://registry.npmjs.org/pkg-22/1.0.0'',
       Log (Checking ''pkg-23@1.0.0''), Fetch ''https://registry.npmjs.org/pkg-23/1.0.0'',
       Log (Checking ''pkg-24@1.0.0''), Fetch ''https://registry.npmjs.org/pkg-24/1.0.0'',
       Log (Checking ''pkg-25@1.0.0''), Fetch ''https://registry.npmjs.org/pkg-25/1.0.0'']"
    by (simp only: e twenty_five_events) simp
  have d: "filter is_invocation (snd (batch_loop ?run twenty_five 0 [] []))
      = map (\<lambda>p. Log (announce version_scoped p)) twenty_five"
    by (simp only: e i append_Nil)
  from a b c d show ?thesis by (intro conjI)
qed

end
